theory Spec2Isabelle
  imports Complex_Main "HOL-Library.While_Combinator" "HOL-Library.Multiset"
    "HOL-Library.Product_Lexorder"
begin

section \<open>Process records (process.py)\<close>

datatype ProcessState = NEW | READY | RUNNING | WAITING | TERMINATED

text \<open>
  The attributes of the class \<open>Process\<close>. Python integers are unbounded, so every
  numeric attribute is an \<open>int\<close>.
\<close>

record Process =
  pid :: int
  arrival_time :: int
  burst_time :: int
  priority :: int
  state :: ProcessState
  remaining_time :: int
  completion_time :: int
  turnaround_time :: int
  waiting_time :: int
  response_time :: int
  start_time :: int

text \<open>\<open>Process.__init__(pid, arrival_time, burst_time, priority)\<close>.\<close>

definition Process_init :: "int \<Rightarrow> int \<Rightarrow> int \<Rightarrow> int \<Rightarrow> Process" where
  "Process_init i a b pr =
     \<lparr>pid = i, arrival_time = a, burst_time = b, priority = pr, state = NEW,
      remaining_time = b, completion_time = 0, turnaround_time = 0, waiting_time = 0,
      response_time = - 1, start_time = - 1\<rparr>"

text \<open>
  \<open>Process.execute(time_slice)\<close> both mutates the object and returns the number of
  units executed. \<open>execute\<close> is the object after the call, \<open>executed_units\<close> the value
  returned (the schedulers ignore it).
\<close>

definition execute :: "Process \<Rightarrow> int \<Rightarrow> Process" where
  "execute p time_slice =
     (if state p \<noteq> RUNNING then p
      else let executed = min time_slice (remaining_time p);
               p1 = p\<lparr>remaining_time := remaining_time p - executed\<rparr>
           in if remaining_time p1 = 0 then p1\<lparr>state := TERMINATED\<rparr> else p1)"

definition executed_units :: "Process \<Rightarrow> int \<Rightarrow> int" where
  "executed_units p time_slice =
     (if state p \<noteq> RUNNING then 0 else min time_slice (remaining_time p))"

definition is_complete :: "Process \<Rightarrow> bool" where
  "is_complete p \<longleftrightarrow> remaining_time p = 0"

text \<open>\<open>Process.get_statistics()\<close>: a dictionary with eight string keys.\<close>

definition get_statistics :: "Process \<Rightarrow> (string \<rightharpoonup> int)" where
  "get_statistics p =
     [''pid'' \<mapsto> pid p,
      ''arrival_time'' \<mapsto> arrival_time p,
      ''burst_time'' \<mapsto> burst_time p,
      ''priority'' \<mapsto> priority p,
      ''completion_time'' \<mapsto> completion_time p,
      ''turnaround_time'' \<mapsto> turnaround_time p,
      ''waiting_time'' \<mapsto> waiting_time p,
      ''response_time'' \<mapsto> response_time p]"

subsection \<open>Gantt labels\<close>

text \<open>
  A Gantt label is the string \<open>f"P{pid}"\<close> or \<open>"IDLE"\<close>. Python renders an integer in
  decimal, with a leading minus sign when it is negative.
\<close>

definition digit_char :: "nat \<Rightarrow> char" where
  "digit_char d =
     (if d = 0 then CHR ''0'' else if d = 1 then CHR ''1'' else if d = 2 then CHR ''2''
      else if d = 3 then CHR ''3'' else if d = 4 then CHR ''4'' else if d = 5 then CHR ''5''
      else if d = 6 then CHR ''6'' else if d = 7 then CHR ''7'' else if d = 8 then CHR ''8''
      else CHR ''9'')"

function str_nat :: "nat \<Rightarrow> string" where
  "str_nat n = (if n < 10 then [digit_char n] else str_nat (n div 10) @ [digit_char (n mod 10)])"
  by pat_completeness auto
termination
  by (relation "measure id") auto

declare str_nat.simps [simp del]

definition str_int :: "int \<Rightarrow> string" where
  "str_int i = (if i < 0 then CHR ''-'' # str_nat (nat (- i)) else str_nat (nat i))"

definition proc_label :: "Process \<Rightarrow> string" where
  "proc_label p = CHR ''P'' # str_int (pid p)"

type_synonym gantt_entry = "int \<times> int \<times> string"

section \<open>The scheduler base class (scheduler.py)\<close>

text \<open>
  The attributes of \<open>CPUScheduler\<close> that the policies update, together with the two
  local lists \<open>remaining_processes\<close> and \<open>ready_queue\<close> of the queue-driven policies.
  Every process object is held by exactly one of the lists at any time, so the lists
  hold the records themselves.
\<close>

record scheduler =
  current_time :: int
  gantt_chart :: "gantt_entry list"
  completed_processes :: "Process list"
  remaining_processes :: "Process list"
  ready_queue :: "Process list"

text \<open>
  \<open>CPUScheduler.__init__\<close> copies the processes, sets the clock to 0 and the two
  result lists to empty. The local lists start as each \<open>schedule\<close> method sets them:
  \<open>remaining_processes\<close> sorted by \<open>(arrival_time, pid)\<close> (Python's sort is stable, as
  is \<open>sort_key\<close>), \<open>ready_queue\<close> empty.
\<close>

definition arrival_key :: "Process \<Rightarrow> int \<times> int" where
  "arrival_key p = (arrival_time p, pid p)"

definition CPUScheduler_init :: "Process list \<Rightarrow> scheduler" where
  "CPUScheduler_init ps =
     \<lparr>current_time = 0, gantt_chart = [], completed_processes = [],
      remaining_processes = sort_key arrival_key ps, ready_queue = []\<rparr>"

subsection \<open>Metrics\<close>

text \<open>
  \<open>calculate_metrics\<close> divides integer sums by the number of completed processes with
  Python's true division and rounds the quotient with \<open>round(x, 2)\<close>. Both produce
  floating-point numbers; they are operations of the Python runtime, taken here as the
  parameters \<open>fdiv\<close> and \<open>fround\<close> over a type \<open>'f\<close> of floats. What the runtime adds to
  the division is written out: a zero divisor raises \<open>ZeroDivisionError\<close>.
\<close>

datatype py_error = ZeroDivisionError | ValueError

datatype 'f py_num = PyInt int | PyFloat 'f

definition true_div :: "(int \<Rightarrow> int \<Rightarrow> 'f) \<Rightarrow> int \<Rightarrow> int \<Rightarrow> py_error + 'f" where
  "true_div fdiv a b = (if b = 0 then Inl ZeroDivisionError else Inr (fdiv a b))"

definition calculate_metrics ::
  "(int \<Rightarrow> int \<Rightarrow> 'f) \<Rightarrow> ('f \<Rightarrow> int \<Rightarrow> 'f) \<Rightarrow> Process list \<Rightarrow> py_error + (string \<rightharpoonup> 'f py_num)" where
  "calculate_metrics fdiv fround cs =
     (let n = int (length cs) in
      if n = 0 then Inr Map.empty
      else
        case true_div fdiv (sum_list (map turnaround_time cs)) n of
          Inl e \<Rightarrow> Inl e
        | Inr avg_turnaround \<Rightarrow>
        case true_div fdiv (sum_list (map waiting_time cs)) n of
          Inl e \<Rightarrow> Inl e
        | Inr avg_waiting \<Rightarrow>
        case true_div fdiv (sum_list (map response_time cs)) n of
          Inl e \<Rightarrow> Inl e
        | Inr avg_response \<Rightarrow>
            Inr [''avg_turnaround_time'' \<mapsto> PyFloat (fround avg_turnaround 2),
                 ''avg_waiting_time'' \<mapsto> PyFloat (fround avg_waiting 2),
                 ''avg_response_time'' \<mapsto> PyFloat (fround avg_response 2),
                 ''total_processes'' \<mapsto> PyInt n])"

type_synonym 'f schedule_result =
  "(string \<rightharpoonup> int) list \<times> (string \<rightharpoonup> 'f py_num) \<times> gantt_entry list"

definition get_results ::
  "(int \<Rightarrow> int \<Rightarrow> 'f) \<Rightarrow> ('f \<Rightarrow> int \<Rightarrow> 'f) \<Rightarrow> 'a scheduler_scheme
     \<Rightarrow> py_error + 'f schedule_result" where
  "get_results fdiv fround s =
     (let stats = map get_statistics (completed_processes s) in
      case calculate_metrics fdiv fround (completed_processes s) of
        Inl e \<Rightarrow> Inl e
      | Inr metrics \<Rightarrow> Inr (stats, metrics, gantt_chart s))"

section \<open>First come, first served\<close>

text \<open>
  The statistics every policy writes when a process completes at time \<open>t\<close>.
\<close>

definition finalize :: "Process \<Rightarrow> int \<Rightarrow> Process" where
  "finalize p t =
     p\<lparr>completion_time := t,
       turnaround_time := t - arrival_time p,
       waiting_time := (t - arrival_time p) - burst_time p\<rparr>"

text \<open>The body of the \<open>for process in self.processes\<close> loop.\<close>

definition FCFS_step :: "scheduler \<Rightarrow> Process \<Rightarrow> scheduler" where
  "FCFS_step s p =
     (let s1 = (if current_time s < arrival_time p
                then s\<lparr>gantt_chart := gantt_chart s @ [(current_time s, arrival_time p, ''IDLE'')],
                       current_time := arrival_time p\<rparr>
                else s);
          p1 = p\<lparr>state := RUNNING, start_time := current_time s1,
                 response_time := current_time s1 - arrival_time p\<rparr>;
          execution_time = burst_time p1;
          s2 = s1\<lparr>gantt_chart := gantt_chart s1 @
                      [(current_time s1, current_time s1 + execution_time, proc_label p1)],
                  current_time := current_time s1 + execution_time\<rparr>;
          p2 = (finalize p1 (current_time s2))\<lparr>state := TERMINATED, remaining_time := 0\<rparr>
      in s2\<lparr>completed_processes := completed_processes s2 @ [p2]\<rparr>)"

definition FCFS_run :: "Process list \<Rightarrow> scheduler" where
  "FCFS_run ps =
     (let s = CPUScheduler_init ps
      in foldl FCFS_step (s\<lparr>remaining_processes := []\<rparr>) (sort_key arrival_key ps))"

definition FCFS_schedule ::
  "(int \<Rightarrow> int \<Rightarrow> 'f) \<Rightarrow> ('f \<Rightarrow> int \<Rightarrow> 'f) \<Rightarrow> Process list \<Rightarrow> py_error + 'f schedule_result" where
  "FCFS_schedule fdiv fround ps = get_results fdiv fround (FCFS_run ps)"

section \<open>The queue-driven policies\<close>

text \<open>
  The inner loop \<open>while remaining_processes and remaining_processes[0].arrival_time <= t\<close>
  that SJF, SRTF, Round-Robin and Priority share: it pops the head of
  \<open>remaining_processes\<close>, marks it READY and appends it to \<open>ready_queue\<close>. The result
  is the pair of the two lists after the loop.
\<close>

fun admit :: "int \<Rightarrow> Process list \<Rightarrow> Process list \<Rightarrow> Process list \<times> Process list" where
  "admit t [] rq = ([], rq)"
| "admit t (p # rest) rq =
     (if arrival_time p \<le> t then admit t rest (rq @ [p\<lparr>state := READY\<rparr>])
      else (p # rest, rq))"

definition admit_arrived :: "'a scheduler_scheme \<Rightarrow> 'a scheduler_scheme" where
  "admit_arrived s =
     (case admit (current_time s) (remaining_processes s) (ready_queue s) of
        (rest, rq) \<Rightarrow> s\<lparr>remaining_processes := rest, ready_queue := rq\<rparr>)"

text \<open>
  The branch \<open>if not ready_queue\<close>: the CPU idles until the next arrival, if there is
  one, and the loop continues.
\<close>

definition idle_until_next :: "scheduler \<Rightarrow> scheduler" where
  "idle_until_next s =
     (case remaining_processes s of
        [] \<Rightarrow> s
      | p # _ \<Rightarrow>
          s\<lparr>gantt_chart := gantt_chart s @ [(current_time s, arrival_time p, ''IDLE'')],
            current_time := arrival_time p\<rparr>)"

definition work_remains :: "scheduler \<Rightarrow> bool" where
  "work_remains s \<longleftrightarrow> remaining_processes s \<noteq> [] \<or> ready_queue s \<noteq> []"

subsection \<open>Shortest job first and Priority (non-preemptive)\<close>

text \<open>
  \<open>SJFScheduler.schedule\<close> and \<open>PriorityScheduler.schedule\<close> are the same text up to
  the key of \<open>ready_queue.sort\<close>; the loop body is written once, with the key as its
  parameter.
\<close>

definition SJF_key :: "Process \<Rightarrow> int \<times> int \<times> int" where
  "SJF_key p = (burst_time p, arrival_time p, pid p)"

definition Priority_key :: "Process \<Rightarrow> int \<times> int \<times> int" where
  "Priority_key p = (priority p, arrival_time p, pid p)"

definition run_to_completion :: "scheduler \<Rightarrow> Process \<Rightarrow> Process list \<Rightarrow> scheduler" where
  "run_to_completion s p rq =
     (let p1 = p\<lparr>state := RUNNING, start_time := current_time s,
                 response_time := current_time s - arrival_time p\<rparr>;
          execution_time = burst_time p1;
          s1 = s\<lparr>ready_queue := rq,
                 gantt_chart := gantt_chart s @
                   [(current_time s, current_time s + execution_time, proc_label p1)],
                 current_time := current_time s + execution_time\<rparr>;
          p2 = (finalize p1 (current_time s1))\<lparr>state := TERMINATED, remaining_time := 0\<rparr>
      in s1\<lparr>completed_processes := completed_processes s1 @ [p2]\<rparr>)"

definition nonpreemptive_body :: "(Process \<Rightarrow> int \<times> int \<times> int) \<Rightarrow> scheduler \<Rightarrow> scheduler" where
  "nonpreemptive_body key s =
     (let s1 = admit_arrived s in
      if ready_queue s1 = [] then idle_until_next s1
      else case sort_key key (ready_queue s1) of
             [] \<Rightarrow> s1
           | p # rq \<Rightarrow> run_to_completion s1 p rq)"

definition nonpreemptive_run ::
  "(Process \<Rightarrow> int \<times> int \<times> int) \<Rightarrow> Process list \<Rightarrow> scheduler option" where
  "nonpreemptive_run key ps =
     while_option work_remains (nonpreemptive_body key) (CPUScheduler_init ps)"

definition SJF_schedule ::
  "(int \<Rightarrow> int \<Rightarrow> 'f) \<Rightarrow> ('f \<Rightarrow> int \<Rightarrow> 'f) \<Rightarrow> Process list
     \<Rightarrow> (py_error + 'f schedule_result) option" where
  "SJF_schedule fdiv fround ps =
     map_option (get_results fdiv fround) (nonpreemptive_run SJF_key ps)"

definition Priority_schedule ::
  "(int \<Rightarrow> int \<Rightarrow> 'f) \<Rightarrow> ('f \<Rightarrow> int \<Rightarrow> 'f) \<Rightarrow> Process list
     \<Rightarrow> (py_error + 'f schedule_result) option" where
  "Priority_schedule fdiv fround ps =
     map_option (get_results fdiv fround) (nonpreemptive_run Priority_key ps)"

subsection \<open>Round-Robin\<close>

text \<open>
  One dispatch: the head of the ready queue runs for \<open>min(time_quantum, remaining_time)\<close>,
  the processes that arrived meanwhile are admitted, and then the process is either
  finalized or appended to the ready queue.
\<close>

definition mark_first_dispatch :: "Process \<Rightarrow> int \<Rightarrow> Process" where
  "mark_first_dispatch p t =
     (if start_time p = - 1
      then p\<lparr>start_time := t, response_time := t - arrival_time p\<rparr>
      else p)"

definition RR_dispatch :: "int \<Rightarrow> scheduler \<Rightarrow> Process \<Rightarrow> Process list \<Rightarrow> scheduler" where
  "RR_dispatch time_quantum s p rq =
     (let p1 = mark_first_dispatch (p\<lparr>state := RUNNING\<rparr>) (current_time s);
          execution_time = min time_quantum (remaining_time p1);
          s1 = s\<lparr>ready_queue := rq,
                 gantt_chart := gantt_chart s @
                   [(current_time s, current_time s + execution_time, proc_label p1)]\<rparr>;
          p2 = execute p1 execution_time;
          s2 = admit_arrived (s1\<lparr>current_time := current_time s1 + execution_time\<rparr>)
      in if is_complete p2
         then s2\<lparr>completed_processes :=
                   completed_processes s2 @ [finalize p2 (current_time s2)]\<rparr>
         else s2\<lparr>ready_queue := ready_queue s2 @ [p2\<lparr>state := READY\<rparr>]\<rparr>)"

definition RR_body :: "int \<Rightarrow> scheduler \<Rightarrow> scheduler" where
  "RR_body time_quantum s =
     (let s1 = admit_arrived s in
      case ready_queue s1 of
        [] \<Rightarrow> idle_until_next s1
      | p # rq \<Rightarrow> RR_dispatch time_quantum s1 p rq)"

definition RR_run :: "int \<Rightarrow> Process list \<Rightarrow> scheduler option" where
  "RR_run time_quantum ps =
     while_option work_remains (RR_body time_quantum) (CPUScheduler_init ps)"

definition RoundRobin_schedule ::
  "(int \<Rightarrow> int \<Rightarrow> 'f) \<Rightarrow> ('f \<Rightarrow> int \<Rightarrow> 'f) \<Rightarrow> int \<Rightarrow> Process list
     \<Rightarrow> (py_error + 'f schedule_result) option" where
  "RoundRobin_schedule fdiv fround time_quantum ps =
     map_option (get_results fdiv fround) (RR_run time_quantum ps)"

subsection \<open>Shortest remaining time first\<close>

text \<open>
  \<open>SRTFScheduler.schedule\<close> keeps the running process in the local variable
  \<open>current_process\<close> (\<open>None\<close> when the CPU is free).
\<close>

record srtf_scheduler = scheduler +
  current_process :: "Process option"

definition SRTF_key :: "Process \<Rightarrow> int \<times> int \<times> int" where
  "SRTF_key p = (remaining_time p, arrival_time p, pid p)"

text \<open>
  Python's \<open>min(xs, key=f)\<close> returns the first element whose key is minimal: the
  candidate is replaced only by an element with a strictly smaller key.
\<close>

fun min_by :: "('a \<Rightarrow> 'k::linorder) \<Rightarrow> 'a \<Rightarrow> 'a list \<Rightarrow> 'a" where
  "min_by key m [] = m"
| "min_by key m (x # xs) = min_by key (if key x < key m then x else m) xs"

text \<open>
  The block \<open>if current_process:\<close> at the start of a time unit: a completed process is
  finalized at the current time; otherwise the running process is compared with the
  ready queue's minimum and returned to the queue when that minimum has strictly less
  remaining time.
\<close>

definition SRTF_check :: "srtf_scheduler \<Rightarrow> srtf_scheduler" where
  "SRTF_check s =
     (case current_process s of
        None \<Rightarrow> s
      | Some c \<Rightarrow>
          if is_complete c
          then s\<lparr>completed_processes :=
                   completed_processes s @ [finalize c (current_time s)],
                 current_process := None\<rparr>
          else case ready_queue s of
                 [] \<Rightarrow> s
               | q # qs \<Rightarrow>
                   let shortest = min_by SRTF_key q qs in
                   if remaining_time shortest < remaining_time c
                   then s\<lparr>ready_queue := ready_queue s @ [c\<lparr>state := READY\<rparr>],
                          current_process := None\<rparr>
                   else s)"

text \<open>The block \<open>if not current_process and ready_queue:\<close>.\<close>

definition SRTF_select :: "srtf_scheduler \<Rightarrow> srtf_scheduler" where
  "SRTF_select s =
     (if current_process s = None \<and> ready_queue s \<noteq> []
      then case sort_key SRTF_key (ready_queue s) of
             [] \<Rightarrow> s
           | p # rq \<Rightarrow>
               s\<lparr>ready_queue := rq,
                 current_process :=
                   Some (mark_first_dispatch (p\<lparr>state := RUNNING\<rparr>) (current_time s))\<rparr>
      else s)"

text \<open>
  The Gantt update of one time unit: a new entry \<open>[time, time + 1, label]\<close> when the
  chart is empty or its last label differs, else the last entry's end is moved to
  \<open>time + 1\<close>.
\<close>

definition gantt_extend :: "gantt_entry list \<Rightarrow> int \<Rightarrow> string \<Rightarrow> gantt_entry list" where
  "gantt_extend g time l =
     (if g = [] \<or> snd (snd (last g)) \<noteq> l then g @ [(time, time + 1, l)]
      else butlast g @ [(fst (last g), time + 1, snd (snd (last g)))])"

definition SRTF_execute :: "srtf_scheduler \<Rightarrow> srtf_scheduler" where
  "SRTF_execute s =
     (case current_process s of
        Some c \<Rightarrow>
          s\<lparr>gantt_chart := gantt_extend (gantt_chart s) (current_time s) (proc_label c),
            current_process := Some (execute c 1)\<rparr>
      | None \<Rightarrow>
          s\<lparr>gantt_chart := gantt_extend (gantt_chart s) (current_time s) ''IDLE''\<rparr>)"

text \<open>The test of the final \<open>if\<close> of the loop body, and what it does before \<open>break\<close>.\<close>

definition SRTF_all_done :: "srtf_scheduler \<Rightarrow> bool" where
  "SRTF_all_done s \<longleftrightarrow>
     remaining_processes s = [] \<and> ready_queue s = [] \<and>
     (case current_process s of None \<Rightarrow> True | Some c \<Rightarrow> is_complete c)"

definition SRTF_finish :: "srtf_scheduler \<Rightarrow> srtf_scheduler" where
  "SRTF_finish s =
     (case current_process s of
        None \<Rightarrow> s
      | Some c \<Rightarrow>
          if is_complete c
          then s\<lparr>completed_processes :=
                   completed_processes s @ [finalize c (current_time s + 1)]\<rparr>
          else s)"

definition SRTF_unit :: "int \<Rightarrow> srtf_scheduler \<Rightarrow> srtf_scheduler" where
  "SRTF_unit time s =
     SRTF_execute (SRTF_select (SRTF_check (admit_arrived (s\<lparr>current_time := time\<rparr>))))"

text \<open>The loop \<open>for time in range(max_time + 1)\<close> with its \<open>break\<close>.\<close>

fun SRTF_loop :: "int list \<Rightarrow> srtf_scheduler \<Rightarrow> srtf_scheduler" where
  "SRTF_loop [] s = s"
| "SRTF_loop (time # later) s =
     (let s1 = SRTF_unit time s
      in if SRTF_all_done s1 then SRTF_finish s1 else SRTF_loop later s1)"

definition py_range :: "int \<Rightarrow> int list" where
  "py_range n = map int [0..<nat n]"

text \<open>Python's \<open>max\<close> of an empty sequence raises \<open>ValueError\<close>.\<close>

definition py_max :: "int list \<Rightarrow> py_error + int" where
  "py_max xs = (case xs of [] \<Rightarrow> Inl ValueError | x # rest \<Rightarrow> Inr (fold max rest x))"

definition SRTF_init :: "Process list \<Rightarrow> srtf_scheduler" where
  "SRTF_init ps =
     \<lparr>current_time = 0, gantt_chart = [], completed_processes = [],
      remaining_processes = sort_key arrival_key ps, ready_queue = [],
      current_process = None\<rparr>"

definition SRTF_run :: "Process list \<Rightarrow> py_error + srtf_scheduler" where
  "SRTF_run ps =
     (case py_max (map arrival_time ps) of
        Inl e \<Rightarrow> Inl e
      | Inr latest \<Rightarrow>
          let max_time = sum_list (map burst_time ps) + latest
          in Inr (SRTF_loop (py_range (max_time + 1)) (SRTF_init ps)))"

definition SRTF_schedule ::
  "(int \<Rightarrow> int \<Rightarrow> 'f) \<Rightarrow> ('f \<Rightarrow> int \<Rightarrow> 'f) \<Rightarrow> Process list \<Rightarrow> py_error + 'f schedule_result" where
  "SRTF_schedule fdiv fround ps =
     (case SRTF_run ps of
        Inl e \<Rightarrow> Inl e
      | Inr s \<Rightarrow> get_results fdiv fround s)"

section \<open>The five policies behind one entry point\<close>

datatype policy = FCFS | SJF | SRTF | RoundRobin int | Priority

text \<open>
  \<open>schedule\<close> constructs the scheduler of the policy from the processes (and the time
  quantum for Round-Robin) and calls its \<open>schedule\<close> method. \<open>None\<close> stands for a call
  that does not return.
\<close>

fun schedule ::
  "(int \<Rightarrow> int \<Rightarrow> 'f) \<Rightarrow> ('f \<Rightarrow> int \<Rightarrow> 'f) \<Rightarrow> policy \<Rightarrow> Process list
     \<Rightarrow> (py_error + 'f schedule_result) option" where
  "schedule fdiv fround FCFS ps = Some (FCFS_schedule fdiv fround ps)"
| "schedule fdiv fround SJF ps = SJF_schedule fdiv fround ps"
| "schedule fdiv fround SRTF ps = Some (SRTF_schedule fdiv fround ps)"
| "schedule fdiv fround (RoundRobin time_quantum) ps =
     RoundRobin_schedule fdiv fround time_quantum ps"
| "schedule fdiv fround Priority ps = Priority_schedule fdiv fround ps"

section \<open>Vocabulary of the specification\<close>

text \<open>
  The contract of \<open>schedule\<close>: at least one process, unique pids, no negative arrival
  time, positive burst times, every record as its constructor leaves it, and a positive
  quantum for Round-Robin.
\<close>

definition fresh :: "Process \<Rightarrow> bool" where
  "fresh p \<longleftrightarrow> p = Process_init (pid p) (arrival_time p) (burst_time p) (priority p)"

definition valid_input :: "Process list \<Rightarrow> bool" where
  "valid_input ps \<longleftrightarrow>
     ps \<noteq> [] \<and> distinct (map pid ps) \<and>
     (\<forall>p \<in> set ps. 0 \<le> arrival_time p \<and> 0 < burst_time p \<and> fresh p)"

fun valid_policy :: "policy \<Rightarrow> bool" where
  "valid_policy (RoundRobin time_quantum) = (0 < time_quantum)"
| "valid_policy _ = True"

text \<open>
  A Gantt sequence tiles \<open>[lo, hi)\<close>: it is not empty, starts at \<open>lo\<close>, ends at \<open>hi\<close>,
  each interval ends where the next one starts, and every interval has its start before
  its end.
\<close>

definition interval_start :: "gantt_entry \<Rightarrow> int" where
  "interval_start e = fst e"

definition interval_end :: "gantt_entry \<Rightarrow> int" where
  "interval_end e = fst (snd e)"

definition interval_label :: "gantt_entry \<Rightarrow> string" where
  "interval_label e = snd (snd e)"

definition gantt_tiles :: "int \<Rightarrow> int \<Rightarrow> gantt_entry list \<Rightarrow> bool" where
  "gantt_tiles lo hi g \<longleftrightarrow>
     g \<noteq> [] \<and> interval_start (hd g) = lo \<and> interval_end (last g) = hi \<and>
     (\<forall>(e1, e2) \<in> set (zip g (tl g)). interval_end e1 = interval_start e2) \<and>
     (\<forall>e \<in> set g. interval_start e < interval_end e)"

text \<open>No two consecutive intervals carry the same label.\<close>

definition labels_alternate :: "gantt_entry list \<Rightarrow> bool" where
  "labels_alternate g \<longleftrightarrow>
     (\<forall>(e1, e2) \<in> set (zip g (tl g)). interval_label e1 \<noteq> interval_label e2)"

text \<open>The labels of the intervals that cover the time unit \<open>[t, t + 1)\<close>.\<close>

definition running_at :: "gantt_entry list \<Rightarrow> int \<Rightarrow> string list" where
  "running_at g t =
     map interval_label (filter (\<lambda>e. interval_start e \<le> t \<and> t < interval_end e) g)"

text \<open>The entries under \<open>key\<close> of the statistics whose pid is \<open>i\<close>.\<close>

definition stat_of :: "(string \<rightharpoonup> int) list \<Rightarrow> int \<Rightarrow> string \<Rightarrow> int option list" where
  "stat_of stats i key = map (\<lambda>st. st key) (filter (\<lambda>st. st ''pid'' = Some i) stats)"

text \<open>The components of a result, for statements about one concrete call.\<close>

definition result_gantt :: "(py_error + 'f schedule_result) option \<Rightarrow> gantt_entry list" where
  "result_gantt r = (case r of Some (Inr (stats, metrics, gantt)) \<Rightarrow> gantt | _ \<Rightarrow> [])"

definition result_stats :: "(py_error + 'f schedule_result) option \<Rightarrow> (string \<rightharpoonup> int) list" where
  "result_stats r = (case r of Some (Inr (stats, metrics, gantt)) \<Rightarrow> stats | _ \<Rightarrow> [])"

text \<open>
  The theorems hold for every choice of the two float operations. Closed examples are
  stated at one choice: the exact quotient as a rational number, rounded to the nearest
  multiple of \<open>10\<^sup>-\<^sup>n\<close>.
\<close>

definition example_div :: "int \<Rightarrow> int \<Rightarrow> rat" where
  "example_div a b = of_int a / of_int b"

definition example_round :: "rat \<Rightarrow> int \<Rightarrow> rat" where
  "example_round x n = of_int (round (x * 10 ^ nat n)) / 10 ^ nat n"

text \<open>The inputs of the scenarios of the test suite.\<close>

definition fcfs_example :: "Process list" where
  "fcfs_example = [Process_init 1 0 4 0, Process_init 2 1 3 0, Process_init 3 2 2 0]"

definition srtf_example :: "Process list" where
  "srtf_example =
     [Process_init 1 0 8 0, Process_init 2 1 4 0, Process_init 3 2 2 0, Process_init 4 3 1 0]"

definition rr_example :: "Process list" where
  "rr_example = [Process_init 1 0 5 0, Process_init 2 1 3 0, Process_init 3 2 1 0]"

text \<open>
  The state of the SRTF scenario at the start of time unit 3, where P3 is running with
  one unit left and P4 arrives with a burst of one unit.
\<close>

definition srtf_tie_state :: srtf_scheduler where
  "srtf_tie_state = SRTF_unit 2 (SRTF_unit 1 (SRTF_unit 0 (SRTF_init srtf_example)))"

definition srtf_tie_running :: Process where
  "srtf_tie_running =
     (Process_init 3 2 2 0)\<lparr>state := RUNNING, remaining_time := 1, response_time := 0,
                            start_time := 2\<rparr>"





section \<open>Invariants of the scheduling loops\<close>

definition gantt_upto :: "int \<Rightarrow> gantt_entry list \<Rightarrow> bool" where
  "gantt_upto t g \<longleftrightarrow> (g = [] \<and> t = 0) \<or> gantt_tiles 0 t g"

definition labels_from :: "Process list \<Rightarrow> gantt_entry list \<Rightarrow> bool" where
  "labels_from ps g \<longleftrightarrow>
     (\<forall>e \<in> set g. interval_label e = ''IDLE'' \<or> (\<exists>p \<in> set ps. interval_label e = proc_label p))"

definition pending_ok :: "Process \<Rightarrow> bool" where
  "pending_ok p \<longleftrightarrow>
     0 < burst_time p \<and> remaining_time p = burst_time p \<and> start_time p = - 1"

definition ready_ok :: "int \<Rightarrow> Process \<Rightarrow> bool" where
  "ready_ok t p \<longleftrightarrow>
     0 < remaining_time p \<and> remaining_time p \<le> burst_time p \<and>
     arrival_time p + (burst_time p - remaining_time p) \<le> t \<and>
     (start_time p = - 1 \<or> 0 \<le> response_time p)"

definition completed_ok :: "int \<Rightarrow> Process \<Rightarrow> bool" where
  "completed_ok t c \<longleftrightarrow>
     0 \<le> waiting_time c \<and> 0 \<le> response_time c \<and> completion_time c \<le> t \<and>
     arrival_time c + burst_time c \<le> completion_time c"

definition owned_pids :: "'a scheduler_scheme \<Rightarrow> int multiset" where
  "owned_pids s =
     mset (map pid (remaining_processes s @ ready_queue s @ completed_processes s))"

definition queues_ok :: "'a scheduler_scheme \<Rightarrow> bool" where
  "queues_ok s \<longleftrightarrow>
     (\<forall>p \<in> set (remaining_processes s). pending_ok p) \<and>
     (\<forall>p \<in> set (ready_queue s). ready_ok (current_time s) p) \<and>
     (\<forall>c \<in> set (completed_processes s). completed_ok (current_time s) c)"

definition chart_ok :: "Process list \<Rightarrow> 'a scheduler_scheme \<Rightarrow> bool" where
  "chart_ok ps s \<longleftrightarrow>
     gantt_upto (current_time s) (gantt_chart s) \<and> labels_from ps (gantt_chart s) \<and>
     (completed_processes s \<noteq> [] \<longrightarrow> gantt_chart s \<noteq> [])"

definition ending_ok :: "scheduler \<Rightarrow> bool" where
  "ending_ok s \<longleftrightarrow>
     (\<not> work_remains s \<longrightarrow>
        completed_processes s \<noteq> [] \<and>
        completion_time (last (completed_processes s)) = current_time s)"

definition sched_inv :: "Process list \<Rightarrow> scheduler \<Rightarrow> bool" where
  "sched_inv ps s \<longleftrightarrow>
     owned_pids s = mset (map pid ps) \<and> queues_ok s \<and> chart_ok ps s \<and> ending_ok s"

definition run_ok :: "Process list \<Rightarrow> 'a scheduler_scheme \<Rightarrow> bool" where
  "run_ok ps s \<longleftrightarrow>
     mset (map pid (completed_processes s)) = mset (map pid ps) \<and>
     (\<forall>c \<in> set (completed_processes s).
        0 \<le> waiting_time c \<and> 0 \<le> response_time c \<and>
        arrival_time c + burst_time c \<le> completion_time c) \<and>
     gantt_tiles 0 (Max (completion_time ` set (completed_processes s))) (gantt_chart s) \<and>
     labels_from ps (gantt_chart s)"

definition queued_work :: "scheduler \<Rightarrow> nat" where
  "queued_work s =
     sum_list (map (\<lambda>p. nat (remaining_time p) + 1) (remaining_processes s @ ready_queue s))"

definition must_idle :: "scheduler \<Rightarrow> bool" where
  "must_idle s \<longleftrightarrow>
     ready_queue s = [] \<and>
     (case remaining_processes s of [] \<Rightarrow> False | p # _ \<Rightarrow> current_time s < arrival_time p)"

definition loop_measure :: "scheduler \<Rightarrow> nat" where
  "loop_measure s = 2 * queued_work s + (if must_idle s then 1 else 0)"

text \<open>What one Round-Robin dispatch does to the process it runs.\<close>

definition RR_ran :: "int \<Rightarrow> int \<Rightarrow> Process \<Rightarrow> Process" where
  "RR_ran time_quantum t p =
     execute (mark_first_dispatch (p\<lparr>state := RUNNING\<rparr>) t)
       (min time_quantum (remaining_time (mark_first_dispatch (p\<lparr>state := RUNNING\<rparr>) t)))"

text \<open>FCFS: the processes still to be served play the part of the pending list.\<close>

definition FCFS_wait :: "scheduler \<Rightarrow> Process \<Rightarrow> scheduler" where
  "FCFS_wait s p =
     (if current_time s < arrival_time p
      then s\<lparr>gantt_chart := gantt_chart s @ [(current_time s, arrival_time p, ''IDLE'')],
             current_time := arrival_time p\<rparr>
      else s)"

definition alt_inv :: "scheduler \<Rightarrow> bool" where
  "alt_inv s \<longleftrightarrow>
     labels_alternate (gantt_chart s) \<and>
     (\<forall>e \<in> set (gantt_chart s).
        interval_label e = ''IDLE'' \<or>
        (\<exists>c \<in> set (completed_processes s). interval_label e = proc_label c)) \<and>
     (gantt_chart s \<noteq> [] \<and> interval_label (last (gantt_chart s)) = ''IDLE'' \<longrightarrow>
        (\<exists>p rest. remaining_processes s = p # rest \<and> arrival_time p \<le> current_time s))"

definition current_list :: "srtf_scheduler \<Rightarrow> Process list" where
  "current_list s = (case current_process s of None \<Rightarrow> [] | Some c \<Rightarrow> [c])"

definition running_ok :: "int \<Rightarrow> Process \<Rightarrow> bool" where
  "running_ok t c \<longleftrightarrow>
     0 \<le> remaining_time c \<and> remaining_time c \<le> burst_time c \<and>
     arrival_time c + (burst_time c - remaining_time c) \<le> t \<and>
     0 \<le> response_time c \<and> (0 < remaining_time c \<longrightarrow> state c = RUNNING)"

definition srtf_pids :: "srtf_scheduler \<Rightarrow> int multiset" where
  "srtf_pids s = owned_pids s + mset (map pid (current_list s))"

definition srtf_work :: "srtf_scheduler \<Rightarrow> int" where
  "srtf_work s =
     sum_list (map remaining_time (remaining_processes s @ ready_queue s @ current_list s))"

definition latest :: "Process list \<Rightarrow> int" where
  "latest ps = Max (set (map arrival_time ps))"

definition total_burst :: "Process list \<Rightarrow> int" where
  "total_burst ps = sum_list (map burst_time ps)"

definition srtf_ok :: "Process list \<Rightarrow> srtf_scheduler \<Rightarrow> bool" where
  "srtf_ok ps s \<longleftrightarrow>
     srtf_pids s = mset (map pid ps) \<and> queues_ok s \<and>
     (\<forall>p \<in> set (remaining_processes s). arrival_time p \<le> latest ps) \<and>
     (\<forall>c \<in> set (current_list s). running_ok (current_time s) c) \<and>
     0 \<le> current_time s \<and>
     srtf_work s + current_time s \<le> total_burst ps + min (current_time s) (latest ps) \<and>
     gantt_upto (current_time s) (gantt_chart s) \<and> labels_from ps (gantt_chart s) \<and>
     labels_alternate (gantt_chart s)"

definition srtf_final :: "Process list \<Rightarrow> srtf_scheduler \<Rightarrow> bool" where
  "srtf_final ps s \<longleftrightarrow>
     run_ok ps s \<and> labels_alternate (gantt_chart s) \<and>
     (\<forall>c \<in> set (completed_processes s). completion_time c \<le> total_burst ps + latest ps)"

section \<open>The schedulers over an explicit store\<close>

text \<open>
  A Python \<open>Process\<close> is a mutable object and lists hold references to it. To state what
  a \<open>schedule\<close> call does to the caller's objects, the schedulers are written a second
  time over a store that maps references to records: every attribute read is a lookup in
  the store and every attribute write an update of it. The sections above work on the
  records themselves; the two readings are proved equal below.
\<close>

type_synonym ref = nat

record store =
  cells :: "ref \<Rightarrow> Process"
  next_free :: ref

text \<open>
  \<open>copy.deepcopy(p)\<close> allocates a new object with the attribute values of \<open>p\<close>;
  \<open>[copy.deepcopy(p) for p in processes]\<close> does so for every element in turn.
\<close>

definition deepcopy :: "store \<Rightarrow> ref \<Rightarrow> store \<times> ref" where
  "deepcopy st r =
     (st\<lparr>cells := (cells st)(next_free st := cells st r), next_free := Suc (next_free st)\<rparr>,
      next_free st)"

fun deepcopy_all :: "store \<Rightarrow> ref list \<Rightarrow> store \<times> ref list" where
  "deepcopy_all st [] = (st, [])"
| "deepcopy_all st (r # rs) =
     (case deepcopy st r of
        (st1, c) \<Rightarrow> (case deepcopy_all st1 rs of (st2, cs) \<Rightarrow> (st2, c # cs)))"

record ref_scheduler =
  heap :: "ref \<Rightarrow> Process"
  r_current_time :: int
  r_gantt_chart :: "gantt_entry list"
  r_completed_processes :: "ref list"
  r_remaining_processes :: "ref list"
  r_ready_queue :: "ref list"

definition ref_CPUScheduler_init :: "(ref \<Rightarrow> Process) \<Rightarrow> ref list \<Rightarrow> ref_scheduler" where
  "ref_CPUScheduler_init h copies =
     \<lparr>heap = h, r_current_time = 0, r_gantt_chart = [], r_completed_processes = [],
      r_remaining_processes = sort_key (\<lambda>r. arrival_key (h r)) copies, r_ready_queue = []\<rparr>"

definition ref_get_results ::
  "(int \<Rightarrow> int \<Rightarrow> 'f) \<Rightarrow> ('f \<Rightarrow> int \<Rightarrow> 'f) \<Rightarrow> 'a ref_scheduler_scheme
     \<Rightarrow> py_error + 'f schedule_result" where
  "ref_get_results fdiv fround s =
     (let stats = map (\<lambda>r. get_statistics (heap s r)) (r_completed_processes s) in
      case calculate_metrics fdiv fround (map (heap s) (r_completed_processes s)) of
        Inl e \<Rightarrow> Inl e
      | Inr metrics \<Rightarrow> Inr (stats, metrics, r_gantt_chart s))"

subsection \<open>FCFS over the store\<close>

definition ref_FCFS_step :: "ref_scheduler \<Rightarrow> ref \<Rightarrow> ref_scheduler" where
  "ref_FCFS_step s r =
     (let s1 = (if r_current_time s < arrival_time (heap s r)
                then s\<lparr>r_gantt_chart := r_gantt_chart s @
                         [(r_current_time s, arrival_time (heap s r), ''IDLE'')],
                       r_current_time := arrival_time (heap s r)\<rparr>
                else s);
          p1 = (heap s1 r)\<lparr>state := RUNNING, start_time := r_current_time s1,
                 response_time := r_current_time s1 - arrival_time (heap s1 r)\<rparr>;
          execution_time = burst_time p1;
          s2 = s1\<lparr>r_gantt_chart := r_gantt_chart s1 @
                      [(r_current_time s1, r_current_time s1 + execution_time, proc_label p1)],
                  r_current_time := r_current_time s1 + execution_time\<rparr>;
          p2 = (finalize p1 (r_current_time s2))\<lparr>state := TERMINATED, remaining_time := 0\<rparr>
      in s2\<lparr>heap := (heap s2)(r := p2),
            r_completed_processes := r_completed_processes s2 @ [r]\<rparr>)"

definition ref_FCFS_run :: "(ref \<Rightarrow> Process) \<Rightarrow> ref list \<Rightarrow> ref_scheduler" where
  "ref_FCFS_run h copies =
     (let s = ref_CPUScheduler_init h copies
      in foldl ref_FCFS_step (s\<lparr>r_remaining_processes := []\<rparr>)
           (sort_key (\<lambda>r. arrival_key (h r)) copies))"

subsection \<open>The queue-driven policies over the store\<close>

fun ref_admit ::
  "int \<Rightarrow> (ref \<Rightarrow> Process) \<Rightarrow> ref list \<Rightarrow> ref list \<Rightarrow> (ref \<Rightarrow> Process) \<times> ref list \<times> ref list" where
  "ref_admit t h [] rq = (h, [], rq)"
| "ref_admit t h (r # rest) rq =
     (if arrival_time (h r) \<le> t
      then ref_admit t (h(r := (h r)\<lparr>state := READY\<rparr>)) rest (rq @ [r])
      else (h, r # rest, rq))"

definition ref_admit_arrived :: "'a ref_scheduler_scheme \<Rightarrow> 'a ref_scheduler_scheme" where
  "ref_admit_arrived s =
     (case ref_admit (r_current_time s) (heap s) (r_remaining_processes s) (r_ready_queue s) of
        (h, rest, rq) \<Rightarrow> s\<lparr>heap := h, r_remaining_processes := rest, r_ready_queue := rq\<rparr>)"

definition ref_idle_until_next :: "ref_scheduler \<Rightarrow> ref_scheduler" where
  "ref_idle_until_next s =
     (case r_remaining_processes s of
        [] \<Rightarrow> s
      | r # _ \<Rightarrow>
          s\<lparr>r_gantt_chart := r_gantt_chart s @
               [(r_current_time s, arrival_time (heap s r), ''IDLE'')],
            r_current_time := arrival_time (heap s r)\<rparr>)"

definition ref_work_remains :: "ref_scheduler \<Rightarrow> bool" where
  "ref_work_remains s \<longleftrightarrow> r_remaining_processes s \<noteq> [] \<or> r_ready_queue s \<noteq> []"

definition ref_run_to_completion :: "ref_scheduler \<Rightarrow> ref \<Rightarrow> ref list \<Rightarrow> ref_scheduler" where
  "ref_run_to_completion s r rq =
     (let p1 = (heap s r)\<lparr>state := RUNNING, start_time := r_current_time s,
                 response_time := r_current_time s - arrival_time (heap s r)\<rparr>;
          execution_time = burst_time p1;
          s1 = s\<lparr>r_ready_queue := rq,
                 r_gantt_chart := r_gantt_chart s @
                   [(r_current_time s, r_current_time s + execution_time, proc_label p1)],
                 r_current_time := r_current_time s + execution_time\<rparr>;
          p2 = (finalize p1 (r_current_time s1))\<lparr>state := TERMINATED, remaining_time := 0\<rparr>
      in s1\<lparr>heap := (heap s1)(r := p2),
            r_completed_processes := r_completed_processes s1 @ [r]\<rparr>)"

definition ref_nonpreemptive_body ::
  "(Process \<Rightarrow> int \<times> int \<times> int) \<Rightarrow> ref_scheduler \<Rightarrow> ref_scheduler" where
  "ref_nonpreemptive_body key s =
     (let s1 = ref_admit_arrived s in
      if r_ready_queue s1 = [] then ref_idle_until_next s1
      else case sort_key (\<lambda>r. key (heap s1 r)) (r_ready_queue s1) of
             [] \<Rightarrow> s1
           | r # rq \<Rightarrow> ref_run_to_completion s1 r rq)"

definition ref_nonpreemptive_run ::
  "(Process \<Rightarrow> int \<times> int \<times> int) \<Rightarrow> (ref \<Rightarrow> Process) \<Rightarrow> ref list \<Rightarrow> ref_scheduler option" where
  "ref_nonpreemptive_run key h copies =
     while_option ref_work_remains (ref_nonpreemptive_body key) (ref_CPUScheduler_init h copies)"

definition ref_RR_dispatch :: "int \<Rightarrow> ref_scheduler \<Rightarrow> ref \<Rightarrow> ref list \<Rightarrow> ref_scheduler" where
  "ref_RR_dispatch time_quantum s r rq =
     (let p1 = mark_first_dispatch ((heap s r)\<lparr>state := RUNNING\<rparr>) (r_current_time s);
          execution_time = min time_quantum (remaining_time p1);
          s1 = s\<lparr>r_ready_queue := rq,
                 r_gantt_chart := r_gantt_chart s @
                   [(r_current_time s, r_current_time s + execution_time, proc_label p1)]\<rparr>;
          p2 = execute p1 execution_time;
          s2 = ref_admit_arrived
                 (s1\<lparr>heap := (heap s1)(r := p2),
                     r_current_time := r_current_time s1 + execution_time\<rparr>)
      in if is_complete (heap s2 r)
         then s2\<lparr>heap := (heap s2)(r := finalize (heap s2 r) (r_current_time s2)),
                 r_completed_processes := r_completed_processes s2 @ [r]\<rparr>
         else s2\<lparr>heap := (heap s2)(r := (heap s2 r)\<lparr>state := READY\<rparr>),
                 r_ready_queue := r_ready_queue s2 @ [r]\<rparr>)"

definition ref_RR_body :: "int \<Rightarrow> ref_scheduler \<Rightarrow> ref_scheduler" where
  "ref_RR_body time_quantum s =
     (let s1 = ref_admit_arrived s in
      case r_ready_queue s1 of
        [] \<Rightarrow> ref_idle_until_next s1
      | r # rq \<Rightarrow> ref_RR_dispatch time_quantum s1 r rq)"

definition ref_RR_run :: "int \<Rightarrow> (ref \<Rightarrow> Process) \<Rightarrow> ref list \<Rightarrow> ref_scheduler option" where
  "ref_RR_run time_quantum h copies =
     while_option ref_work_remains (ref_RR_body time_quantum) (ref_CPUScheduler_init h copies)"

subsection \<open>SRTF over the store\<close>

record ref_srtf_scheduler = ref_scheduler +
  r_current_process :: "ref option"

definition ref_SRTF_check :: "ref_srtf_scheduler \<Rightarrow> ref_srtf_scheduler" where
  "ref_SRTF_check s =
     (case r_current_process s of
        None \<Rightarrow> s
      | Some c \<Rightarrow>
          if is_complete (heap s c)
          then s\<lparr>heap := (heap s)(c := finalize (heap s c) (r_current_time s)),
                 r_completed_processes := r_completed_processes s @ [c],
                 r_current_process := None\<rparr>
          else case r_ready_queue s of
                 [] \<Rightarrow> s
               | q # qs \<Rightarrow>
                   let shortest = min_by (\<lambda>r. SRTF_key (heap s r)) q qs in
                   if remaining_time (heap s shortest) < remaining_time (heap s c)
                   then s\<lparr>heap := (heap s)(c := (heap s c)\<lparr>state := READY\<rparr>),
                          r_ready_queue := r_ready_queue s @ [c],
                          r_current_process := None\<rparr>
                   else s)"

definition ref_SRTF_select :: "ref_srtf_scheduler \<Rightarrow> ref_srtf_scheduler" where
  "ref_SRTF_select s =
     (if r_current_process s = None \<and> r_ready_queue s \<noteq> []
      then case sort_key (\<lambda>r. SRTF_key (heap s r)) (r_ready_queue s) of
             [] \<Rightarrow> s
           | r # rq \<Rightarrow>
               s\<lparr>heap := (heap s)
                    (r := mark_first_dispatch ((heap s r)\<lparr>state := RUNNING\<rparr>) (r_current_time s)),
                 r_ready_queue := rq,
                 r_current_process := Some r\<rparr>
      else s)"

definition ref_SRTF_execute :: "ref_srtf_scheduler \<Rightarrow> ref_srtf_scheduler" where
  "ref_SRTF_execute s =
     (case r_current_process s of
        Some c \<Rightarrow>
          s\<lparr>heap := (heap s)(c := execute (heap s c) 1),
            r_gantt_chart :=
              gantt_extend (r_gantt_chart s) (r_current_time s) (proc_label (heap s c))\<rparr>
      | None \<Rightarrow>
          s\<lparr>r_gantt_chart := gantt_extend (r_gantt_chart s) (r_current_time s) ''IDLE''\<rparr>)"

definition ref_SRTF_all_done :: "ref_srtf_scheduler \<Rightarrow> bool" where
  "ref_SRTF_all_done s \<longleftrightarrow>
     r_remaining_processes s = [] \<and> r_ready_queue s = [] \<and>
     (case r_current_process s of None \<Rightarrow> True | Some c \<Rightarrow> is_complete (heap s c))"

definition ref_SRTF_finish :: "ref_srtf_scheduler \<Rightarrow> ref_srtf_scheduler" where
  "ref_SRTF_finish s =
     (case r_current_process s of
        None \<Rightarrow> s
      | Some c \<Rightarrow>
          if is_complete (heap s c)
          then s\<lparr>heap := (heap s)(c := finalize (heap s c) (r_current_time s + 1)),
                 r_completed_processes := r_completed_processes s @ [c]\<rparr>
          else s)"

definition ref_SRTF_unit :: "int \<Rightarrow> ref_srtf_scheduler \<Rightarrow> ref_srtf_scheduler" where
  "ref_SRTF_unit time s =
     ref_SRTF_execute (ref_SRTF_select (ref_SRTF_check
       (ref_admit_arrived (s\<lparr>r_current_time := time\<rparr>))))"

fun ref_SRTF_loop :: "int list \<Rightarrow> ref_srtf_scheduler \<Rightarrow> ref_srtf_scheduler" where
  "ref_SRTF_loop [] s = s"
| "ref_SRTF_loop (time # later) s =
     (let s1 = ref_SRTF_unit time s
      in if ref_SRTF_all_done s1 then ref_SRTF_finish s1 else ref_SRTF_loop later s1)"

definition ref_SRTF_init :: "(ref \<Rightarrow> Process) \<Rightarrow> ref list \<Rightarrow> ref_srtf_scheduler" where
  "ref_SRTF_init h copies =
     \<lparr>heap = h, r_current_time = 0, r_gantt_chart = [], r_completed_processes = [],
      r_remaining_processes = sort_key (\<lambda>r. arrival_key (h r)) copies, r_ready_queue = [],
      r_current_process = None\<rparr>"

definition ref_SRTF_run :: "(ref \<Rightarrow> Process) \<Rightarrow> ref list \<Rightarrow> py_error + ref_srtf_scheduler" where
  "ref_SRTF_run h copies =
     (case py_max (map (\<lambda>r. arrival_time (h r)) copies) of
        Inl e \<Rightarrow> Inl e
      | Inr latest_arrival \<Rightarrow>
          let max_time = sum_list (map (\<lambda>r. burst_time (h r)) copies) + latest_arrival
          in Inr (ref_SRTF_loop (py_range (max_time + 1)) (ref_SRTF_init h copies)))"

subsection \<open>One call on the caller's objects\<close>

text \<open>
  \<open>run_schedule\<close> is what a caller does with a list of references to its \<open>Process\<close>
  objects: it constructs the scheduler of the policy, which copies the objects, and calls
  \<open>schedule\<close>. The value is the result together with the store after the call, or
  \<open>None\<close> when the call does not return.
\<close>

fun run_schedule ::
  "(int \<Rightarrow> int \<Rightarrow> 'f) \<Rightarrow> ('f \<Rightarrow> int \<Rightarrow> 'f) \<Rightarrow> policy \<Rightarrow> store \<Rightarrow> ref list
     \<Rightarrow> ((py_error + 'f schedule_result) \<times> store) option" where
  "run_schedule fdiv fround FCFS st refs =
     (case deepcopy_all st refs of
        (st1, copies) \<Rightarrow>
          let s = ref_FCFS_run (cells st1) copies
          in Some (ref_get_results fdiv fround s, st1\<lparr>cells := heap s\<rparr>))"
| "run_schedule fdiv fround SJF st refs =
     (case deepcopy_all st refs of
        (st1, copies) \<Rightarrow>
          map_option (\<lambda>s. (ref_get_results fdiv fround s, st1\<lparr>cells := heap s\<rparr>))
            (ref_nonpreemptive_run SJF_key (cells st1) copies))"
| "run_schedule fdiv fround SRTF st refs =
     (case deepcopy_all st refs of
        (st1, copies) \<Rightarrow>
          (case ref_SRTF_run (cells st1) copies of
             Inl e \<Rightarrow> Some (Inl e, st1)
           | Inr s \<Rightarrow> Some (ref_get_results fdiv fround s, st1\<lparr>cells := heap s\<rparr>)))"
| "run_schedule fdiv fround (RoundRobin time_quantum) st refs =
     (case deepcopy_all st refs of
        (st1, copies) \<Rightarrow>
          map_option (\<lambda>s. (ref_get_results fdiv fround s, st1\<lparr>cells := heap s\<rparr>))
            (ref_RR_run time_quantum (cells st1) copies))"
| "run_schedule fdiv fround Priority st refs =
     (case deepcopy_all st refs of
        (st1, copies) \<Rightarrow>
          map_option (\<lambda>s. (ref_get_results fdiv fround s, st1\<lparr>cells := heap s\<rparr>))
            (ref_nonpreemptive_run Priority_key (cells st1) copies))"

text \<open>The records behind a list of references, and a store of three caller objects.\<close>

definition deref :: "store \<Rightarrow> ref list \<Rightarrow> Process list" where
  "deref st refs = map (cells st) refs"

definition store_example :: store where
  "store_example =
     \<lparr>cells = (\<lambda>r. if r = 0 then Process_init 1 0 4 0
                    else if r = 1 then Process_init 2 1 3 0
                    else Process_init 3 2 2 0),
      next_free = 3\<rparr>"

section \<open>Results shared by all policies\<close>

lemma calculate_metrics_Inr: "\<exists>m. calculate_metrics fdiv fround cs = Inr m"
  by (simp add: calculate_metrics_def true_div_def Let_def)

lemma get_results_Inr:
  "\<exists>m. get_results fdiv fround s =
         Inr (map get_statistics (completed_processes s), m, gantt_chart s)"
  using calculate_metrics_Inr [of fdiv fround "completed_processes s"]
  by (auto simp: get_results_def Let_def)

section \<open>The FCFS scenario\<close>

lemma fcfs_example_run:
  "map (\<lambda>st. (st ''pid'', st ''completion_time'', st ''turnaround_time'', st ''waiting_time''))
     (map get_statistics (completed_processes (FCFS_run fcfs_example)))
   = [(Some 1, Some 4, Some 4, Some 0), (Some 2, Some 7, Some 6, Some 3),
      (Some 3, Some 9, Some 7, Some 5)]"
  by code_simp

text \<open>
  C8: FCFS on P1(arrival 0, burst 4), P2(1, 3), P3(2, 2) returns the statistics of P1, P2,
  P3 in this order, with completion times 4, 7, 9, turnaround times 4, 6, 7 and waiting
  times 0, 3, 5.
\<close>

theorem fcfs_scenario:
  "\<exists>stats metrics gantt.
     FCFS_schedule fdiv fround
       [Process_init 1 0 4 0, Process_init 2 1 3 0, Process_init 3 2 2 0]
       = Inr (stats, metrics, gantt) \<and>
     map (\<lambda>st. (st ''pid'', st ''completion_time'', st ''turnaround_time'', st ''waiting_time''))
       stats
     = [(Some 1, Some 4, Some 4, Some 0), (Some 2, Some 7, Some 6, Some 3),
        (Some 3, Some 9, Some 7, Some 5)]"
proof -
  obtain m where "get_results fdiv fround (FCFS_run fcfs_example) =
      Inr (map get_statistics (completed_processes (FCFS_run fcfs_example)), m,
           gantt_chart (FCFS_run fcfs_example))"
    using get_results_Inr by blast
  then show ?thesis
    using fcfs_example_run by (simp add: FCFS_schedule_def fcfs_example_def)
qed

section \<open>The schedules of all five policies\<close>

lemma digit_char_inj: "a < 10 \<Longrightarrow> b < 10 \<Longrightarrow> digit_char a = digit_char b \<Longrightarrow> a = b"
  unfolding digit_char_def by (simp split: if_splits; presburger)

lemma str_nat_not_Nil: "str_nat n \<noteq> []"
  by (subst str_nat.simps) simp

lemma str_nat_inj: "str_nat n = str_nat m \<Longrightarrow> n = m"
proof (induction n arbitrary: m rule: str_nat.induct)
  case (1 n)
  show ?case
  proof (cases "n < 10")
    case True
    then have n: "str_nat n = [digit_char n]" by (subst str_nat.simps) simp
    show ?thesis
    proof (cases "m < 10")
      case True
      then have "str_nat m = [digit_char m]" by (subst str_nat.simps) simp
      with n "1.prems" \<open>n < 10\<close> True show ?thesis by (auto dest: digit_char_inj)
    next
      case False
      then have "str_nat m = str_nat (m div 10) @ [digit_char (m mod 10)]"
        by (subst str_nat.simps) simp
      with n "1.prems" show ?thesis using str_nat_not_Nil [of "m div 10"] by simp
    qed
  next
    case False
    then have n: "str_nat n = str_nat (n div 10) @ [digit_char (n mod 10)]"
      by (subst str_nat.simps) simp
    show ?thesis
    proof (cases "m < 10")
      case True
      then have "str_nat m = [digit_char m]" by (subst str_nat.simps) simp
      with n "1.prems" show ?thesis using str_nat_not_Nil [of "n div 10"] by simp
    next
      case mf: False
      then have "str_nat m = str_nat (m div 10) @ [digit_char (m mod 10)]"
        by (subst str_nat.simps) simp
      with n "1.prems" have e: "str_nat (n div 10) = str_nat (m div 10)"
        "digit_char (n mod 10) = digit_char (m mod 10)" by simp_all
      from "1.IH" [OF False e(1)] have "n div 10 = m div 10" .
      moreover from e(2) have "n mod 10 = m mod 10"
        using digit_char_inj [of "n mod 10" "m mod 10"] by simp
      ultimately show ?thesis by (metis div_mult_mod_eq)
    qed
  qed
qed

lemma digit_char_not_minus: "digit_char d \<noteq> CHR ''-''"
  by (simp add: digit_char_def)

lemma hd_str_nat_not_minus: "hd (str_nat n) \<noteq> CHR ''-''"
proof (induction n rule: str_nat.induct)
  case (1 n)
  show ?case
  proof (cases "n < 10")
    case True
    then show ?thesis by (subst str_nat.simps) (simp add: digit_char_not_minus)
  next
    case False
    then show ?thesis using 1 str_nat_not_Nil [of "n div 10"]
      by (subst str_nat.simps) simp
  qed
qed

lemma str_int_inj: "str_int i = str_int j \<Longrightarrow> i = j"
proof -
  assume e: "str_int i = str_int j"
  have neq: "\<And>a b. CHR ''-'' # str_nat a \<noteq> str_nat b"
  proof
    fix a b assume "CHR ''-'' # str_nat a = str_nat b"
    then have "hd (str_nat b) = CHR ''-''" by (metis list.sel(1))
    then show False using hd_str_nat_not_minus by blast
  qed
  show ?thesis
  proof (cases "i < 0")
    case True
    show ?thesis
    proof (cases "j < 0")
      case jt: True
      with True e have "nat (- i) = nat (- j)" by (simp add: str_int_def str_nat_inj)
      with True jt show ?thesis by simp
    next
      case False
      with True e show ?thesis using neq by (simp add: str_int_def)
    qed
  next
    case False
    show ?thesis
    proof (cases "j < 0")
      case True
      with False e show ?thesis using neq [of "nat (- j)" "nat i"] by (simp add: str_int_def)
    next
      case jf: False
      with False e have "nat i = nat j" by (simp add: str_int_def str_nat_inj)
      with False jf show ?thesis by simp
    qed
  qed
qed

lemma proc_label_eq_iff [simp]: "proc_label p = proc_label q \<longleftrightarrow> pid p = pid q"
  by (auto simp: proc_label_def dest: str_int_inj)

lemma proc_label_not_IDLE [simp]: "proc_label p \<noteq> ''IDLE''" "''IDLE'' \<noteq> proc_label p"
  by (simp_all add: proc_label_def)

lemma zip_tl_snoc [simp]:
  "g \<noteq> [] \<Longrightarrow> zip (g @ [e]) (tl g @ [e]) = zip g (tl g) @ [(last g, e)]"
proof (induction g rule: list_nonempty_induct)
  case (single x)
  then show ?case by simp
next
  case (cons x xs)
  then show ?case by (cases xs) auto
qed

lemma gantt_tiles_single: "lo < b \<Longrightarrow> gantt_tiles lo b [(lo, b, l)]"
  by (simp add: gantt_tiles_def interval_start_def interval_end_def)

lemma gantt_tiles_snoc:
  "gantt_tiles lo hi g \<Longrightarrow> hi < b \<Longrightarrow> gantt_tiles lo b (g @ [(hi, b, l)])"
  unfolding gantt_tiles_def
  by (auto simp: interval_start_def interval_end_def)

lemma gantt_upto_snoc: "gantt_upto t g \<Longrightarrow> t < b \<Longrightarrow> gantt_upto b (g @ [(t, b, l)])"
  unfolding gantt_upto_def
  using gantt_tiles_single gantt_tiles_snoc by fastforce

lemma labels_alternate_snoc:
  "labels_alternate g \<Longrightarrow> (g \<noteq> [] \<Longrightarrow> interval_label (last g) \<noteq> l)
   \<Longrightarrow> labels_alternate (g @ [(a, b, l)])"
  unfolding labels_alternate_def
  by (cases "g = []") (auto simp: interval_label_def)

lemma labels_from_snoc:
  "labels_from ps g \<Longrightarrow> l = ''IDLE'' \<or> (\<exists>p \<in> set ps. l = proc_label p)
   \<Longrightarrow> labels_from ps (g @ [(a, b, l)])"
  unfolding labels_from_def by (auto simp: interval_label_def)

lemma admit_split:
  "admit t pending rq = (pending1, rq1) \<Longrightarrow>
   \<exists>new. pending = new @ pending1 \<and> rq1 = rq @ map (\<lambda>x. x\<lparr>state := READY\<rparr>) new \<and>
         (\<forall>p \<in> set new. arrival_time p \<le> t) \<and>
         (\<forall>p rest. pending1 = p # rest \<longrightarrow> t < arrival_time p)"
proof (induction pending arbitrary: rq)
  case Nil
  then show ?case by simp
next
  case (Cons p pending)
  show ?case
  proof (cases "arrival_time p \<le> t")
    case True
    with Cons.prems have "admit t pending (rq @ [p\<lparr>state := READY\<rparr>]) = (pending1, rq1)"
      by simp
    from Cons.IH [OF this] obtain new where
      "pending = new @ pending1" "rq1 = (rq @ [p\<lparr>state := READY\<rparr>]) @ map (\<lambda>x. x\<lparr>state := READY\<rparr>) new"
      "\<forall>p \<in> set new. arrival_time p \<le> t" "\<forall>p rest. pending1 = p # rest \<longrightarrow> t < arrival_time p"
      by blast
    with True show ?thesis
      by (intro exI [of _ "p # new"]) simp
  next
    case False
    with Cons.prems show ?thesis
      by (intro exI [of _ "[]"]) auto
  qed
qed

lemma ready_ok_mono: "ready_ok t p \<Longrightarrow> t \<le> t' \<Longrightarrow> ready_ok t' p"
  by (auto simp: ready_ok_def)

lemma completed_ok_mono: "completed_ok t p \<Longrightarrow> t \<le> t' \<Longrightarrow> completed_ok t' p"
  by (auto simp: completed_ok_def)

lemma pending_ready: "pending_ok p \<Longrightarrow> arrival_time p \<le> t \<Longrightarrow> ready_ok t (p\<lparr>state := READY\<rparr>)"
  by (simp add: pending_ok_def ready_ok_def)

lemma admit_arrived_split:
  obtains new r1 where
    "remaining_processes (admit_arrived s) = r1"
    "remaining_processes s = new @ r1"
    "ready_queue (admit_arrived s) = ready_queue s @ map (\<lambda>x. x\<lparr>state := READY\<rparr>) new"
    "\<forall>p \<in> set new. arrival_time p \<le> current_time s"
    "\<forall>p rest. r1 = p # rest \<longrightarrow> current_time s < arrival_time p"
proof -
  obtain pending1 rq1 where
    a: "admit (current_time s) (remaining_processes s) (ready_queue s) = (pending1, rq1)"
    by fastforce
  from admit_split [OF a] obtain new where
    "remaining_processes s = new @ pending1"
    "rq1 = ready_queue s @ map (\<lambda>x. x\<lparr>state := READY\<rparr>) new"
    "\<forall>p \<in> set new. arrival_time p \<le> current_time s"
    "\<forall>p rest. pending1 = p # rest \<longrightarrow> current_time s < arrival_time p"
    by blast
  then show ?thesis
    using a that [of pending1 new] by (simp add: admit_arrived_def)
qed

lemma admit_arrived_fields [simp]:
  "current_time (admit_arrived s) = current_time s"
  "gantt_chart (admit_arrived s) = gantt_chart s"
  "completed_processes (admit_arrived s) = completed_processes s"
  "scheduler.more (admit_arrived s) = scheduler.more s"
  by (simp_all add: admit_arrived_def split: prod.splits)

lemma admit_arrived_next:
  "remaining_processes (admit_arrived s) = p # rest \<Longrightarrow> current_time s < arrival_time p"
  by (rule admit_arrived_split [of s]) simp

lemma owned_pids_admit [simp]: "owned_pids (admit_arrived s) = owned_pids s"
  by (rule admit_arrived_split [of s]) (simp add: owned_pids_def o_def)

lemma queues_ok_admit: "queues_ok s \<Longrightarrow> queues_ok (admit_arrived s)"
  by (rule admit_arrived_split [of s]) (auto simp: queues_ok_def intro: pending_ready)

lemma chart_ok_admit [simp]: "chart_ok ps (admit_arrived s) = chart_ok ps s"
  by (simp add: chart_ok_def)

lemma work_remains_admit [simp]: "work_remains (admit_arrived s) = work_remains s"
  by (rule admit_arrived_split [of s]) (auto simp: work_remains_def)

lemma idle_until_next_fields:
  "remaining_processes s = p # rest \<Longrightarrow>
   idle_until_next s =
     s\<lparr>gantt_chart := gantt_chart s @ [(current_time s, arrival_time p, ''IDLE'')],
       current_time := arrival_time p\<rparr>"
  by (simp add: idle_until_next_def)

lemma run_to_completion_fields [simp]:
  "remaining_processes (run_to_completion s p rq) = remaining_processes s"
  "ready_queue (run_to_completion s p rq) = rq"
  "current_time (run_to_completion s p rq) = current_time s + burst_time p"
  "gantt_chart (run_to_completion s p rq) =
     gantt_chart s @ [(current_time s, current_time s + burst_time p, proc_label p)]"
  by (simp_all add: run_to_completion_def Let_def finalize_def proc_label_def)

lemma run_to_completion_completed:
  "\<exists>c. completed_processes (run_to_completion s p rq) = completed_processes s @ [c] \<and>
       pid c = pid p \<and> completion_time c = current_time s + burst_time p \<and>
       waiting_time c = current_time s - arrival_time p \<and>
       response_time c = current_time s - arrival_time p \<and>
       arrival_time c = arrival_time p \<and> burst_time c = burst_time p"
  by (simp add: run_to_completion_def Let_def finalize_def)

lemma pid_in_input:
  "owned_pids s = mset (map pid ps) \<Longrightarrow>
   p \<in> set (remaining_processes s @ ready_queue s @ completed_processes s) \<Longrightarrow>
   \<exists>p' \<in> set ps. proc_label p = proc_label p'"
proof -
  assume o: "owned_pids s = mset (map pid ps)"
    and p: "p \<in> set (remaining_processes s @ ready_queue s @ completed_processes s)"
  from p have "pid p \<in># owned_pids s"
    unfolding owned_pids_def by (metis image_eqI set_map set_mset_mset)
  with o have "pid p \<in> set (map pid ps)" by (metis set_mset_mset)
  then show ?thesis by auto
qed

lemma sort_key_Cons_mset:
  "sort_key key xs = p # rq \<Longrightarrow> mset xs = add_mset p (mset rq)"
  by (metis mset.simps(2) mset_sort)

lemma sort_key_Cons_set:
  "sort_key key xs = p # rq \<Longrightarrow> set xs = insert p (set rq)"
  by (metis list.simps(15) set_sort)

text \<open>The two ways an iteration of a non-preemptive policy can go.\<close>

lemma nonpreemptive_body_cases:
  assumes "work_remains s"
  obtains (idle) p rest where
      "ready_queue (admit_arrived s) = []" "remaining_processes (admit_arrived s) = p # rest"
      "current_time s < arrival_time p"
      "nonpreemptive_body key s =
         (admit_arrived s)\<lparr>gantt_chart := gantt_chart s @ [(current_time s, arrival_time p, ''IDLE'')],
                           current_time := arrival_time p\<rparr>"
    | (run) p rq where
      "sort_key key (ready_queue (admit_arrived s)) = p # rq"
      "nonpreemptive_body key s = run_to_completion (admit_arrived s) p rq"
proof (cases "ready_queue (admit_arrived s) = []")
  case True
  with assms have "remaining_processes (admit_arrived s) \<noteq> []"
    using work_remains_admit [of s] by (simp add: work_remains_def del: work_remains_admit)
  then obtain p rest where r: "remaining_processes (admit_arrived s) = p # rest"
    by (cases "remaining_processes (admit_arrived s)") auto
  show ?thesis
    using True r admit_arrived_next [OF r] idle [OF True r]
    by (simp add: nonpreemptive_body_def Let_def idle_until_next_fields [OF r])
next
  case False
  then have "sort_key key (ready_queue (admit_arrived s)) \<noteq> []"
    by (metis length_sort length_0_conv)
  then obtain p rq where r: "sort_key key (ready_queue (admit_arrived s)) = p # rq"
    by (cases "sort_key key (ready_queue (admit_arrived s))") auto
  show ?thesis
    using False r run [OF r] by (simp add: nonpreemptive_body_def Let_def)
qed

lemma sched_inv_nonpreemptive_body:
  assumes inv: "sched_inv ps s" and wr: "work_remains s"
  shows "sched_inv ps (nonpreemptive_body key s)"
proof -
  let ?a = "admit_arrived s"
  have o: "owned_pids ?a = mset (map pid ps)" and q: "queues_ok ?a" and c: "chart_ok ps ?a"
    using inv by (simp_all add: sched_inv_def queues_ok_admit)
  from wr show ?thesis
  proof (cases rule: nonpreemptive_body_cases [where key = key])
    case (idle p rest)
    let ?s' = "nonpreemptive_body key s"
    have "owned_pids ?s' = mset (map pid ps)"
      using o by (simp add: idle owned_pids_def)
    moreover have "queues_ok ?s'"
      using q idle(3) unfolding idle(4) queues_ok_def
      by (auto intro: ready_ok_mono completed_ok_mono)
    moreover have "chart_ok ps ?s'"
      using c idle(3) unfolding idle(4) chart_ok_def
      by (auto intro: gantt_upto_snoc labels_from_snoc)
    moreover have "ending_ok ?s'"
      by (simp add: idle ending_ok_def work_remains_def)
    ultimately show ?thesis by (simp add: sched_inv_def)
  next
    case (run p rq)
    let ?s' = "nonpreemptive_body key s"
    have m: "mset (ready_queue ?a) = add_mset p (mset rq)"
      and st: "set (ready_queue ?a) = insert p (set rq)"
      using run(1) by (rule sort_key_Cons_mset, rule sort_key_Cons_set)
    have p: "ready_ok (current_time s) p" and rq: "\<forall>x \<in> set rq. ready_ok (current_time s) x"
      using q st by (auto simp: queues_ok_def)
    have b: "0 < burst_time p" and a: "arrival_time p \<le> current_time s"
      using p by (auto simp: ready_ok_def)
    obtain c' where c': "completed_processes ?s' = completed_processes s @ [c']"
      "pid c' = pid p" "completion_time c' = current_time s + burst_time p"
      "waiting_time c' = current_time s - arrival_time p"
      "response_time c' = current_time s - arrival_time p"
      "arrival_time c' = arrival_time p" "burst_time c' = burst_time p"
      using run_to_completion_completed [of ?a p rq] unfolding run(2) by auto
    have "owned_pids ?s' = owned_pids ?a"
      unfolding owned_pids_def c'(1) by (simp add: run(2) m c'(2))
    then have "owned_pids ?s' = mset (map pid ps)" using o by simp
    moreover have "queues_ok ?s'"
      using q rq b a unfolding queues_ok_def c'(1)
      by (auto simp: run(2) completed_ok_def c' intro: ready_ok_mono)
    moreover have "chart_ok ps ?s'"
    proof -
      have "p \<in> set (remaining_processes ?a @ ready_queue ?a @ completed_processes ?a)"
        using st by simp
      from pid_in_input [OF o this] show ?thesis
        using c b unfolding chart_ok_def c'(1)
        by (auto simp: run(2) intro!: gantt_upto_snoc labels_from_snoc)
    qed
    moreover have "ending_ok ?s'"
      unfolding ending_ok_def c'(1) by (simp add: run(2) c'(3))
    ultimately show ?thesis by (simp add: sched_inv_def)
  qed
qed

lemma valid_input_pending:
  "valid_input ps \<Longrightarrow> p \<in> set ps \<Longrightarrow> pending_ok p"
  unfolding valid_input_def fresh_def pending_ok_def Process_init_def
  by (metis Process.select_convs(6,11))

lemma sched_inv_init:
  assumes "valid_input ps"
  shows "sched_inv ps (CPUScheduler_init ps)"
proof -
  have "ps \<noteq> []" using assms by (simp add: valid_input_def)
  then have "sort_key arrival_key ps \<noteq> []" by (metis length_sort length_0_conv)
  then show ?thesis
    using valid_input_pending [OF assms]
    by (simp add: sched_inv_def CPUScheduler_init_def owned_pids_def queues_ok_def chart_ok_def
        ending_ok_def work_remains_def gantt_upto_def labels_from_def)
qed

lemma queued_work_admit [simp]: "queued_work (admit_arrived s) = queued_work s"
  by (rule admit_arrived_split [of s]) (simp add: queued_work_def o_def)

lemma admit_nothing:
  assumes "ready_queue (admit_arrived s) = []"
  shows "ready_queue s = []" "remaining_processes (admit_arrived s) = remaining_processes s"
  using assms by (rule_tac [!] admit_arrived_split [of s]) simp_all

lemma nonpreemptive_body_decreases:
  assumes wr: "work_remains s"
  shows "loop_measure (nonpreemptive_body key s) < loop_measure s"
  using wr
proof (cases rule: nonpreemptive_body_cases [where key = key])
  case (idle p rest)
  have "remaining_processes s = p # rest"
    using admit_nothing(2) [OF idle(1)] idle(2) by simp
  then have "must_idle s"
    using admit_nothing(1) [OF idle(1)] idle(3) by (simp add: must_idle_def)
  moreover have "\<not> must_idle (nonpreemptive_body key s)"
    by (simp add: idle must_idle_def)
  moreover have "queued_work (nonpreemptive_body key s) = queued_work (admit_arrived s)"
    by (simp add: idle queued_work_def)
  ultimately show ?thesis by (simp add: loop_measure_def)
next
  case (run p rq)
  have "mset (ready_queue (admit_arrived s)) = add_mset p (mset rq)"
    using run(1) by (rule sort_key_Cons_mset)
  then have "sum_list (map (\<lambda>p. nat (remaining_time p) + 1) (ready_queue (admit_arrived s)))
      = (nat (remaining_time p) + 1) + sum_list (map (\<lambda>p. nat (remaining_time p) + 1) rq)"
    by (metis (no_types, lifting) list.simps(9) mset.simps(2) mset_map sum_list.Cons
        sum_mset_sum_list)
  then have "queued_work (nonpreemptive_body key s) < queued_work (admit_arrived s)"
    by (simp add: run(2) queued_work_def)
  then show ?thesis by (simp add: loop_measure_def)
qed

lemma sched_inv_final:
  assumes inv: "sched_inv ps s" and fin: "\<not> work_remains s"
  shows "run_ok ps s"
proof -
  have e: "remaining_processes s = []" "ready_queue s = []"
    using fin by (simp_all add: work_remains_def)
  have c: "completed_processes s \<noteq> []"
    "completion_time (last (completed_processes s)) = current_time s"
    using inv fin by (simp_all add: sched_inv_def ending_ok_def)
  have ok: "\<forall>c \<in> set (completed_processes s). completed_ok (current_time s) c"
    using inv by (simp add: sched_inv_def queues_ok_def)
  have "Max (completion_time ` set (completed_processes s)) = current_time s"
  proof (rule Max_eqI)
    show "finite (completion_time ` set (completed_processes s))" by simp
    show "\<And>y. y \<in> completion_time ` set (completed_processes s) \<Longrightarrow> y \<le> current_time s"
      using ok by (auto simp: completed_ok_def)
    show "current_time s \<in> completion_time ` set (completed_processes s)"
      using c by (metis image_eqI last_in_set)
  qed
  moreover have "gantt_tiles 0 (current_time s) (gantt_chart s)"
    using inv c by (auto simp: sched_inv_def chart_ok_def gantt_upto_def)
  ultimately show ?thesis
    using inv ok e by (auto simp: run_ok_def sched_inv_def owned_pids_def chart_ok_def completed_ok_def)
qed

lemma nonpreemptive_run_ok:
  assumes "valid_input ps"
  shows "\<exists>s. nonpreemptive_run key ps = Some s \<and> run_ok ps s"
proof -
  have "\<exists>s. while_option work_remains (nonpreemptive_body key) (CPUScheduler_init ps) = Some s"
    by (rule measure_while_option_Some [where P = "sched_inv ps" and f = loop_measure])
      (simp_all add: sched_inv_nonpreemptive_body nonpreemptive_body_decreases
        sched_inv_init [OF assms])
  then obtain s where s: "nonpreemptive_run key ps = Some s"
    by (auto simp: nonpreemptive_run_def)
  then have "sched_inv ps s"
    unfolding nonpreemptive_run_def
    by (rule while_option_rule [rotated]) (simp_all add: sched_inv_nonpreemptive_body sched_inv_init [OF assms])
  moreover have "\<not> work_remains s"
    using s unfolding nonpreemptive_run_def by (rule while_option_stop)
  ultimately show ?thesis using s sched_inv_final by blast
qed

lemma RR_ran_fields:
  "pid (RR_ran q t p) = pid p"
  "arrival_time (RR_ran q t p) = arrival_time p"
  "burst_time (RR_ran q t p) = burst_time p"
  "remaining_time (RR_ran q t p) = remaining_time p - min q (remaining_time p)"
  "response_time (RR_ran q t p) = (if start_time p = - 1 then t - arrival_time p else response_time p)"
  "start_time (RR_ran q t p) = (if start_time p = - 1 then t else start_time p)"
  by (simp_all add: RR_ran_def mark_first_dispatch_def execute_def Let_def)

lemma RR_dispatch_eq:
  "RR_dispatch q s p rq =
     (let et = min q (remaining_time p);
          s2 = admit_arrived
                 (s\<lparr>ready_queue := rq,
                    gantt_chart := gantt_chart s @
                      [(current_time s, current_time s + et, proc_label p)],
                    current_time := current_time s + et\<rparr>)
      in if remaining_time p \<le> q
         then s2\<lparr>completed_processes :=
                   completed_processes s2 @ [finalize (RR_ran q (current_time s) p) (current_time s2)]\<rparr>
         else s2\<lparr>ready_queue := ready_queue s2 @ [(RR_ran q (current_time s) p)\<lparr>state := READY\<rparr>]\<rparr>)"
proof -
  have cmp: "is_complete (RR_ran q (current_time s) p) \<longleftrightarrow> remaining_time p \<le> q"
    by (auto simp: is_complete_def RR_ran_fields)
  have m: "remaining_time (mark_first_dispatch (p\<lparr>state := RUNNING\<rparr>) (current_time s))
      = remaining_time p"
    "proc_label (mark_first_dispatch (p\<lparr>state := RUNNING\<rparr>) (current_time s)) = proc_label p"
    by (simp_all add: mark_first_dispatch_def proc_label_def)
  show ?thesis
    using cmp unfolding RR_ran_def m by (simp add: RR_dispatch_def Let_def m)
qed

lemma RR_body_cases:
  assumes "work_remains s"
  obtains (idle) p rest where
      "ready_queue (admit_arrived s) = []" "remaining_processes (admit_arrived s) = p # rest"
      "current_time s < arrival_time p"
      "RR_body q s =
         (admit_arrived s)\<lparr>gantt_chart := gantt_chart s @ [(current_time s, arrival_time p, ''IDLE'')],
                           current_time := arrival_time p\<rparr>"
    | (dispatch) p rq where
      "ready_queue (admit_arrived s) = p # rq"
      "RR_body q s = RR_dispatch q (admit_arrived s) p rq"
proof (cases "ready_queue (admit_arrived s)")
  case Nil
  with assms have "remaining_processes (admit_arrived s) \<noteq> []"
    using work_remains_admit [of s] by (simp add: work_remains_def del: work_remains_admit)
  then obtain p rest where r: "remaining_processes (admit_arrived s) = p # rest"
    by (cases "remaining_processes (admit_arrived s)") auto
  show ?thesis
    using Nil r admit_arrived_next [OF r] idle [OF Nil r]
    by (simp add: RR_body_def Let_def idle_until_next_fields [OF r])
next
  case (Cons p rq)
  then show ?thesis
    using dispatch [OF Cons] by (simp add: RR_body_def Let_def)
qed

lemma sched_inv_RR_body:
  assumes inv: "sched_inv ps s" and wr: "work_remains s" and q: "0 < q"
  shows "sched_inv ps (RR_body q s)"
proof -
  let ?a = "admit_arrived s"
  have o: "owned_pids ?a = mset (map pid ps)" and qa: "queues_ok ?a" and c: "chart_ok ps ?a"
    using inv by (simp_all add: sched_inv_def queues_ok_admit)
  from wr show ?thesis
  proof (cases rule: RR_body_cases [where q = q])
    case (idle p rest)
    let ?s' = "RR_body q s"
    have "owned_pids ?s' = mset (map pid ps)"
      using o by (simp add: idle owned_pids_def)
    moreover have "queues_ok ?s'"
      using qa idle(3) unfolding idle(4) queues_ok_def
      by (auto intro: ready_ok_mono completed_ok_mono)
    moreover have "chart_ok ps ?s'"
      using c idle(3) unfolding idle(4) chart_ok_def
      by (auto intro: gantt_upto_snoc labels_from_snoc)
    moreover have "ending_ok ?s'"
      by (simp add: idle ending_ok_def work_remains_def)
    ultimately show ?thesis by (simp add: sched_inv_def)
  next
    case (dispatch p rq)
    let ?t = "current_time s"
    let ?et = "min q (remaining_time p)"
    let ?r = "RR_ran q ?t p"
    let ?s1 = "?a\<lparr>ready_queue := rq,
                    gantt_chart := gantt_chart ?a @ [(current_time ?a, current_time ?a + ?et, proc_label p)],
                    current_time := current_time ?a + ?et\<rparr>"
    let ?s2 = "admit_arrived ?s1"
    have p: "ready_ok ?t p" and rq: "\<forall>x \<in> set rq. ready_ok ?t x"
      using qa dispatch(1) by (auto simp: queues_ok_def)
    have et: "0 < ?et" "?et \<le> remaining_time p"
      using p q by (auto simp: ready_ok_def)
    have o1: "owned_pids ?s1 + {#pid p#} = mset (map pid ps)"
      using o dispatch(1) by (simp add: owned_pids_def)
    have q1: "queues_ok ?s1"
      using qa rq et unfolding queues_ok_def
      by (auto intro: ready_ok_mono completed_ok_mono)
    have "p \<in> set (remaining_processes ?a @ ready_queue ?a @ completed_processes ?a)"
      using dispatch(1) by simp
    from pid_in_input [OF o this] have c1: "gantt_upto (current_time ?s1) (gantt_chart ?s1)"
      "labels_from ps (gantt_chart ?s1)" "gantt_chart ?s1 \<noteq> []"
      using c et by (auto simp: chart_ok_def intro!: gantt_upto_snoc labels_from_snoc)
    have o2: "owned_pids ?s2 + {#pid p#} = mset (map pid ps)"
      and q2: "queues_ok ?s2" and c2: "chart_ok ps ?s2"
      using o1 q1 c1 by (simp_all add: queues_ok_admit chart_ok_def)
    have t2: "current_time ?s2 = ?t + ?et" by simp
    show ?thesis
    proof (cases "remaining_time p \<le> q")
      case True
      let ?s' = "?s2\<lparr>completed_processes := completed_processes ?s2 @ [finalize ?r (current_time ?s2)]\<rparr>"
      have eq: "RR_body q s = ?s'"
        using True by (simp add: dispatch(2) RR_dispatch_eq Let_def)
      have "completed_ok (?t + ?et) (finalize ?r (?t + ?et))"
        using p True q by (auto simp: completed_ok_def finalize_def RR_ran_fields ready_ok_def)
      then have "queues_ok ?s'"
        using q2 by (simp add: queues_ok_def)
      moreover have "owned_pids ?s' = mset (map pid ps)"
        using o2 by (simp add: owned_pids_def finalize_def RR_ran_fields)
      moreover have "chart_ok ps ?s'"
        using c2 c1(3) by (simp add: chart_ok_def)
      moreover have "ending_ok ?s'"
        by (simp add: ending_ok_def finalize_def)
      ultimately show ?thesis by (simp add: sched_inv_def eq)
    next
      case False
      let ?s' = "?s2\<lparr>ready_queue := ready_queue ?s2 @ [?r\<lparr>state := READY\<rparr>]\<rparr>"
      have eq: "RR_body q s = ?s'"
        using False by (simp add: dispatch(2) RR_dispatch_eq Let_def)
      have "ready_ok (?t + ?et) (?r\<lparr>state := READY\<rparr>)"
        using p False q by (auto simp: ready_ok_def RR_ran_fields)
      then have "queues_ok ?s'"
        using q2 by (simp add: queues_ok_def)
      moreover have "owned_pids ?s' = mset (map pid ps)"
        using o2 by (simp add: owned_pids_def RR_ran_fields)
      moreover have "chart_ok ps ?s'"
        using c2 by (simp add: chart_ok_def)
      moreover have "ending_ok ?s'"
        by (simp add: ending_ok_def work_remains_def)
      ultimately show ?thesis by (simp add: sched_inv_def eq)
    qed
  qed
qed

lemma RR_body_decreases:
  assumes wr: "work_remains s" and q: "0 < q"
  shows "loop_measure (RR_body q s) < loop_measure s"
  using wr
proof (cases rule: RR_body_cases [where q = q])
  case (idle p rest)
  have "remaining_processes s = p # rest"
    using admit_nothing(2) [OF idle(1)] idle(2) by simp
  then have "must_idle s"
    using admit_nothing(1) [OF idle(1)] idle(3) by (simp add: must_idle_def)
  moreover have "\<not> must_idle (RR_body q s)"
    by (simp add: idle must_idle_def)
  moreover have "queued_work (RR_body q s) = queued_work (admit_arrived s)"
    by (simp add: idle queued_work_def)
  ultimately show ?thesis by (simp add: loop_measure_def)
next
  case (dispatch p rq)
  let ?a = "admit_arrived s"
  let ?et = "min q (remaining_time p)"
  let ?s1 = "?a\<lparr>ready_queue := rq,
                  gantt_chart := gantt_chart ?a @ [(current_time ?a, current_time ?a + ?et, proc_label p)],
                  current_time := current_time ?a + ?et\<rparr>"
  have w1: "queued_work ?a = queued_work ?s1 + nat (remaining_time p) + 1"
    using dispatch(1) by (simp add: queued_work_def)
  have w2: "queued_work (admit_arrived ?s1) = queued_work ?s1" by simp
  have "queued_work (RR_body q s) < queued_work ?a"
  proof (cases "remaining_time p \<le> q")
    case True
    then have "queued_work (RR_body q s) = queued_work (admit_arrived ?s1)"
      by (simp add: dispatch(2) RR_dispatch_eq Let_def queued_work_def)
    then show ?thesis using w1 w2 by simp
  next
    case False
    then have "queued_work (RR_body q s) =
        queued_work (admit_arrived ?s1) + nat (remaining_time p - q) + 1"
      by (simp add: dispatch(2) RR_dispatch_eq Let_def queued_work_def RR_ran_fields)
    then show ?thesis using w1 w2 False q by simp
  qed
  then show ?thesis by (simp add: loop_measure_def)
qed

lemma RR_run_ok:
  assumes "valid_input ps" and q: "0 < q"
  shows "\<exists>s. RR_run q ps = Some s \<and> run_ok ps s"
proof -
  have "\<exists>s. while_option work_remains (RR_body q) (CPUScheduler_init ps) = Some s"
    by (rule measure_while_option_Some [where P = "sched_inv ps" and f = loop_measure])
      (simp_all add: sched_inv_RR_body RR_body_decreases q sched_inv_init [OF assms(1)])
  then obtain s where s: "RR_run q ps = Some s"
    by (auto simp: RR_run_def)
  then have "sched_inv ps s"
    unfolding RR_run_def
    by (rule while_option_rule [rotated])
      (simp_all add: sched_inv_RR_body q sched_inv_init [OF assms(1)])
  moreover have "\<not> work_remains s"
    using s unfolding RR_run_def by (rule while_option_stop)
  ultimately show ?thesis using s sched_inv_final by blast
qed

lemma FCFS_step_eq:
  "FCFS_step s p = run_to_completion (FCFS_wait s p) p (ready_queue s)"
  by (simp add: FCFS_step_def FCFS_wait_def run_to_completion_def Let_def)

lemma FCFS_wait_fields [simp]:
  "ready_queue (FCFS_wait s p) = ready_queue s"
  "remaining_processes (FCFS_wait s p) = remaining_processes s"
  "completed_processes (FCFS_wait s p) = completed_processes s"
  "current_time (FCFS_wait s p) = max (current_time s) (arrival_time p)"
  by (simp_all add: FCFS_wait_def)

lemma FCFS_wait_chart:
  "gantt_upto (current_time s) (gantt_chart s) \<Longrightarrow>
   gantt_upto (max (current_time s) (arrival_time p)) (gantt_chart (FCFS_wait s p))"
  "labels_from ps (gantt_chart s) \<Longrightarrow> labels_from ps (gantt_chart (FCFS_wait s p))"
  "gantt_chart s \<noteq> [] \<Longrightarrow> gantt_chart (FCFS_wait s p) \<noteq> []"
  by (auto simp: FCFS_wait_def max_def intro: gantt_upto_snoc labels_from_snoc)

lemma FCFS_step_fields [simp]:
  "ready_queue (FCFS_step s p) = ready_queue s"
  "remaining_processes (FCFS_step s p) = remaining_processes s"
  "current_time (FCFS_step s p) = max (current_time s) (arrival_time p) + burst_time p"
  "gantt_chart (FCFS_step s p) =
     gantt_chart (FCFS_wait s p)
     @ [(max (current_time s) (arrival_time p),
         max (current_time s) (arrival_time p) + burst_time p, proc_label p)]"
  by (simp_all add: FCFS_step_eq)

lemma sched_inv_FCFS_step:
  assumes inv: "sched_inv ps (s\<lparr>remaining_processes := p # todo\<rparr>)" and r: "ready_queue s = []"
  shows "sched_inv ps ((FCFS_step s p)\<lparr>remaining_processes := todo\<rparr>)"
    and "ready_queue (FCFS_step s p) = []"
proof -
  let ?s' = "(FCFS_step s p)\<lparr>remaining_processes := todo\<rparr>"
  show "ready_queue (FCFS_step s p) = []" by (simp add: r)
  have o: "owned_pids (s\<lparr>remaining_processes := p # todo\<rparr>) = mset (map pid ps)"
    and qs: "queues_ok (s\<lparr>remaining_processes := p # todo\<rparr>)"
    and c: "chart_ok ps (s\<lparr>remaining_processes := p # todo\<rparr>)"
    using inv by (simp_all add: sched_inv_def)
  have p: "pending_ok p" using qs by (simp add: queues_ok_def)
  obtain c' where c': "completed_processes (FCFS_step s p) = completed_processes s @ [c']"
    "pid c' = pid p" "completion_time c' = max (current_time s) (arrival_time p) + burst_time p"
    "waiting_time c' = max (current_time s) (arrival_time p) - arrival_time p"
    "response_time c' = max (current_time s) (arrival_time p) - arrival_time p"
    "arrival_time c' = arrival_time p" "burst_time c' = burst_time p"
    using run_to_completion_completed [of "FCFS_wait s p" p "ready_queue s"]
    unfolding FCFS_step_eq by auto
  have "owned_pids ?s' = mset (map pid ps)"
    using o unfolding owned_pids_def by (simp add: c' r)
  moreover have "queues_ok ?s'"
    using qs p unfolding queues_ok_def
    by (auto simp: c' r completed_ok_def pending_ok_def)
  moreover have "chart_ok ps ?s'"
  proof -
    have "p \<in> set (remaining_processes (s\<lparr>remaining_processes := p # todo\<rparr>)
        @ ready_queue (s\<lparr>remaining_processes := p # todo\<rparr>)
        @ completed_processes (s\<lparr>remaining_processes := p # todo\<rparr>))"
      by simp
    from pid_in_input [OF o this] show ?thesis
      using c p unfolding chart_ok_def
      by (auto simp: c' pending_ok_def intro!: gantt_upto_snoc labels_from_snoc FCFS_wait_chart)
  qed
  moreover have "ending_ok ?s'"
    unfolding ending_ok_def by (simp add: c')
  ultimately show "sched_inv ps ?s'" by (simp add: sched_inv_def)
qed

lemma sched_inv_FCFS_fold:
  "sched_inv ps (s\<lparr>remaining_processes := todo\<rparr>) \<Longrightarrow> ready_queue s = [] \<Longrightarrow>
   sched_inv ps ((foldl FCFS_step s todo)\<lparr>remaining_processes := []\<rparr>) \<and>
   ready_queue (foldl FCFS_step s todo) = []"
proof (induction todo arbitrary: s)
  case Nil
  then show ?case by simp
next
  case (Cons p todo)
  from sched_inv_FCFS_step [OF Cons.prems] Cons.IH [of "FCFS_step s p"]
  show ?case by simp
qed

lemma FCFS_fold_remaining [simp]:
  "remaining_processes (foldl FCFS_step s todo) = remaining_processes s"
  by (induction todo arbitrary: s) simp_all

lemma FCFS_run_ok:
  assumes "valid_input ps"
  shows "run_ok ps (FCFS_run ps)"
proof -
  let ?s0 = "(CPUScheduler_init ps)\<lparr>remaining_processes := []\<rparr>"
  have "?s0\<lparr>remaining_processes := sort_key arrival_key ps\<rparr> = CPUScheduler_init ps"
    by (simp add: CPUScheduler_init_def)
  then have "sched_inv ps (?s0\<lparr>remaining_processes := sort_key arrival_key ps\<rparr>)"
    using sched_inv_init [OF assms] by simp
  moreover have "ready_queue ?s0 = []" by (simp add: CPUScheduler_init_def)
  ultimately have "sched_inv ps ((FCFS_run ps)\<lparr>remaining_processes := []\<rparr>)"
    "ready_queue (FCFS_run ps) = []"
    using sched_inv_FCFS_fold [where ps = ps and s = ?s0 and todo = "sort_key arrival_key ps"]
    by (simp_all add: FCFS_run_def Let_def)
  moreover have "(FCFS_run ps)\<lparr>remaining_processes := []\<rparr> = FCFS_run ps"
    by (simp add: FCFS_run_def Let_def)
  ultimately show ?thesis
    using sched_inv_final [of ps "FCFS_run ps"]
    by (simp add: work_remains_def) (simp add: FCFS_run_def Let_def)
qed

lemma owned_distinct:
  assumes "owned_pids s = mset (map pid ps)" "distinct (map pid ps)"
  shows "distinct (map pid (remaining_processes s @ ready_queue s @ completed_processes s))"
  using assms unfolding owned_pids_def by (metis mset_eq_imp_distinct_iff)

lemma fresh_label:
  assumes a: "alt_inv s" and g: "gantt_chart s \<noteq> []"
    and d: "pid p \<notin> pid ` set (completed_processes s)"
  shows "interval_label (last (gantt_chart s)) \<noteq> proc_label p"
proof -
  have "last (gantt_chart s) \<in> set (gantt_chart s)" using g by simp
  then have "interval_label (last (gantt_chart s)) = ''IDLE'' \<or>
      (\<exists>c \<in> set (completed_processes s). interval_label (last (gantt_chart s)) = proc_label c)"
    using a unfolding alt_inv_def by blast
  then show ?thesis
  proof
    assume "interval_label (last (gantt_chart s)) = ''IDLE''"
    then show ?thesis by simp
  next
    assume "\<exists>c \<in> set (completed_processes s).
        interval_label (last (gantt_chart s)) = proc_label c"
    then obtain c where "c \<in> set (completed_processes s)"
      "interval_label (last (gantt_chart s)) = proc_label c" by blast
    moreover from this(1) d have "pid c \<noteq> pid p" by (metis imageI)
    ultimately show ?thesis by simp
  qed
qed

lemma alt_inv_nonpreemptive_body:
  assumes inv: "sched_inv ps s" and alt: "alt_inv s" and wr: "work_remains s"
    and dis: "distinct (map pid ps)"
  shows "alt_inv (nonpreemptive_body key s)"
proof -
  let ?a = "admit_arrived s"
  have o: "owned_pids ?a = mset (map pid ps)"
    using inv by (simp add: sched_inv_def)
  from wr show ?thesis
  proof (cases rule: nonpreemptive_body_cases [where key = key])
    case (idle p rest)
    have r: "remaining_processes s = p # rest"
      using admit_nothing(2) [OF idle(1)] idle(2) by simp
    have "gantt_chart s \<noteq> [] \<Longrightarrow> interval_label (last (gantt_chart s)) \<noteq> ''IDLE''"
      using alt r idle(3) by (auto simp: alt_inv_def)
    then have "labels_alternate (gantt_chart s @ [(current_time s, arrival_time p, ''IDLE'')])"
      using alt by (auto simp: alt_inv_def intro: labels_alternate_snoc)
    then show ?thesis
      using alt unfolding idle(4) alt_inv_def
      by (auto simp: idle(2) interval_label_def)
  next
    case (run p rq)
    have st: "set (ready_queue ?a) = insert p (set rq)"
      using run(1) by (rule sort_key_Cons_set)
    have "distinct (map pid (remaining_processes ?a @ ready_queue ?a @ completed_processes ?a))"
      using o dis by (rule owned_distinct)
    then have d: "pid p \<notin> pid ` set (completed_processes s)"
      using st by auto
    obtain c' where c': "completed_processes (nonpreemptive_body key s) = completed_processes s @ [c']"
      "pid c' = pid p"
      using run_to_completion_completed [of ?a p rq] unfolding run(2) by auto
    have "gantt_chart s \<noteq> [] \<Longrightarrow> interval_label (last (gantt_chart s)) \<noteq> proc_label p"
      using fresh_label [OF alt _ d] by simp
    then have "labels_alternate (gantt_chart s @
        [(current_time s, current_time s + burst_time p, proc_label p)])"
      using alt by (auto simp: alt_inv_def intro: labels_alternate_snoc)
    then show ?thesis
      using alt unfolding alt_inv_def c'(1)
      by (auto simp: run(2) interval_label_def c'(2))
  qed
qed

lemma alt_inv_init: "alt_inv (CPUScheduler_init ps)"
  by (simp add: alt_inv_def CPUScheduler_init_def labels_alternate_def)

lemma nonpreemptive_run_alternates:
  assumes v: "valid_input ps" and s: "nonpreemptive_run key ps = Some s"
  shows "labels_alternate (gantt_chart s)"
proof -
  have dis: "distinct (map pid ps)" using v by (simp add: valid_input_def)
  have "sched_inv ps s \<and> alt_inv s"
    using s unfolding nonpreemptive_run_def
    by (rule while_option_rule [rotated])
      (auto intro: sched_inv_nonpreemptive_body alt_inv_nonpreemptive_body [OF _ _ _ dis]
        sched_inv_init [OF v] alt_inv_init)
  then show ?thesis by (simp add: alt_inv_def)
qed

lemma alt_inv_FCFS_step:
  assumes inv: "sched_inv ps (s\<lparr>remaining_processes := p # todo\<rparr>)"
    and alt: "alt_inv (s\<lparr>remaining_processes := p # todo\<rparr>)"
    and r: "ready_queue s = []" and dis: "distinct (map pid ps)"
  shows "alt_inv ((FCFS_step s p)\<lparr>remaining_processes := todo\<rparr>)"
proof -
  let ?v = "s\<lparr>remaining_processes := p # todo\<rparr>"
  have o: "owned_pids ?v = mset (map pid ps)"
    using inv by (simp add: sched_inv_def)
  have "distinct (map pid (remaining_processes ?v @ ready_queue ?v @ completed_processes ?v))"
    using o dis by (rule owned_distinct)
  then have d: "pid p \<notin> pid ` set (completed_processes ?v)"
    by auto
  obtain c' where c': "completed_processes (FCFS_step s p) = completed_processes s @ [c']"
    "pid c' = pid p"
    using run_to_completion_completed [of "FCFS_wait s p" p "ready_queue s"]
    unfolding FCFS_step_eq by auto
  have l: "gantt_chart s \<noteq> [] \<Longrightarrow> interval_label (last (gantt_chart s)) \<noteq> proc_label p"
    using fresh_label [OF alt _ d] by simp
  have w: "labels_alternate (gantt_chart (FCFS_wait s p))"
    "gantt_chart (FCFS_wait s p) \<noteq> [] \<Longrightarrow>
       interval_label (last (gantt_chart (FCFS_wait s p))) \<noteq> proc_label p"
    "\<forall>e \<in> set (gantt_chart (FCFS_wait s p)).
        interval_label e = ''IDLE'' \<or>
        (\<exists>c \<in> set (completed_processes s). interval_label e = proc_label c)"
    using alt l unfolding alt_inv_def FCFS_wait_def
    by (auto simp: interval_label_def intro!: labels_alternate_snoc)
  have "labels_alternate (gantt_chart (FCFS_step s p))"
    using w by (auto intro: labels_alternate_snoc)
  then show ?thesis
    using w(3) by (auto simp: alt_inv_def c' interval_label_def)
qed

lemma alt_inv_FCFS_fold:
  "sched_inv ps (s\<lparr>remaining_processes := todo\<rparr>) \<Longrightarrow>
   alt_inv (s\<lparr>remaining_processes := todo\<rparr>) \<Longrightarrow> ready_queue s = [] \<Longrightarrow>
   distinct (map pid ps) \<Longrightarrow>
   alt_inv ((foldl FCFS_step s todo)\<lparr>remaining_processes := []\<rparr>)"
proof (induction todo arbitrary: s)
  case Nil
  then show ?case by simp
next
  case (Cons p todo)
  from sched_inv_FCFS_step [OF Cons.prems(1,3)] alt_inv_FCFS_step [OF Cons.prems]
    Cons.IH [of "FCFS_step s p"] Cons.prems(4)
  show ?case by simp
qed

lemma FCFS_run_alternates:
  assumes v: "valid_input ps"
  shows "labels_alternate (gantt_chart (FCFS_run ps))"
proof -
  let ?s0 = "(CPUScheduler_init ps)\<lparr>remaining_processes := []\<rparr>"
  have e: "?s0\<lparr>remaining_processes := sort_key arrival_key ps\<rparr> = CPUScheduler_init ps"
    by (simp add: CPUScheduler_init_def)
  have "alt_inv ((foldl FCFS_step ?s0 (sort_key arrival_key ps))\<lparr>remaining_processes := []\<rparr>)"
    using v sched_inv_init [OF v] alt_inv_init [of ps]
    by (intro alt_inv_FCFS_fold [where ps = ps]) (simp_all add: e valid_input_def, simp add: CPUScheduler_init_def)
  then show ?thesis by (simp add: alt_inv_def FCFS_run_def Let_def)
qed

lemma labels_alternate_iff: "labels_alternate g \<longleftrightarrow> distinct_adj (map interval_label g)"
proof (induction g rule: induct_list012)
  case 1
  then show ?case by (simp add: labels_alternate_def)
next
  case (2 x)
  then show ?case by (simp add: labels_alternate_def)
next
  case (3 x y zs)
  then show ?case by (simp add: labels_alternate_def)
qed

lemma gantt_tiles_snoc_iff:
  "g \<noteq> [] \<Longrightarrow>
   gantt_tiles lo hi (g @ [(a, b, l)]) \<longleftrightarrow> gantt_tiles lo a g \<and> a < b \<and> b = hi"
  unfolding gantt_tiles_def
  by (auto simp: interval_start_def interval_end_def)

lemma gantt_extend_upto:
  assumes "gantt_upto t g"
  shows "gantt_upto (t + 1) (gantt_extend g t l)"
proof (cases "g = [] \<or> snd (snd (last g)) \<noteq> l")
  case True
  then show ?thesis
    using gantt_upto_snoc [OF assms, of "t + 1" l] by (simp add: gantt_extend_def)
next
  case False
  then have g: "g \<noteq> []" and ll: "snd (snd (last g)) = l" by auto
  from g assms have t: "gantt_tiles 0 t g" by (simp add: gantt_upto_def)
  obtain a e where le: "last g = (a, e, l)" using ll by (cases "last g") auto
  have gs: "g = butlast g @ [(a, e, l)]" using g le by (metis append_butlast_last_id)
  have "gantt_tiles 0 (t + 1) (butlast g @ [(a, t + 1, l)])"
  proof (cases "butlast g = []")
    case True
    with gs t show ?thesis
      by (auto simp: gantt_tiles_def interval_start_def interval_end_def)
  next
    case False
    from t have "gantt_tiles 0 t (butlast g @ [(a, e, l)])" using gs by simp
    then have "gantt_tiles 0 a (butlast g)" "a < e" "e = t"
      using gantt_tiles_snoc_iff [OF False] by auto
    then show ?thesis using gantt_tiles_snoc_iff [OF False] by auto
  qed
  then show ?thesis
    using g ll le by (simp add: gantt_extend_def gantt_upto_def)
qed

lemma gantt_extend_labels:
  "map interval_label (gantt_extend g t l) =
     (if g = [] \<or> interval_label (last g) \<noteq> l then map interval_label g @ [l]
      else map interval_label g)"
proof (cases "g = [] \<or> interval_label (last g) \<noteq> l")
  case True
  then show ?thesis by (auto simp: gantt_extend_def interval_label_def)
next
  case False
  then have g: "g \<noteq> []" and ll: "interval_label (last g) = l" by auto
  have "map interval_label (butlast g @ [(fst (last g), t + 1, snd (snd (last g)))])
      = map interval_label (butlast g @ [last g])"
    by (simp add: interval_label_def)
  then show ?thesis
    using g ll by (simp add: gantt_extend_def interval_label_def)
qed

lemma gantt_extend_alternate:
  "labels_alternate g \<Longrightarrow> labels_alternate (gantt_extend g t l)"
  unfolding labels_alternate_iff gantt_extend_labels
  by (auto simp: distinct_adj_append_iff last_map)

lemma labels_from_iff:
  "labels_from ps g \<longleftrightarrow>
     (\<forall>l \<in> set (map interval_label g). l = ''IDLE'' \<or> (\<exists>p \<in> set ps. l = proc_label p))"
  by (auto simp: labels_from_def)

lemma gantt_extend_from:
  "labels_from ps g \<Longrightarrow> l = ''IDLE'' \<or> (\<exists>p \<in> set ps. l = proc_label p) \<Longrightarrow>
   labels_from ps (gantt_extend g t l)"
  unfolding labels_from_iff gantt_extend_labels by auto

lemma gantt_extend_not_Nil [simp]: "gantt_extend g t l \<noteq> []"
  by (simp add: gantt_extend_def)

lemma current_list_simps [simp]:
  "current_process s = None \<Longrightarrow> current_list s = []"
  "current_process s = Some c \<Longrightarrow> current_list s = [c]"
  by (simp_all add: current_list_def)

text \<open>Admission.\<close>

lemma srtf_admit_fields [simp]:
  "current_process (admit_arrived s) = current_process s"
  "current_list (admit_arrived s) = current_list s"
  by (simp_all add: admit_arrived_def current_list_def split: prod.splits)

lemma srtf_work_admit [simp]: "srtf_work (admit_arrived s) = srtf_work s"
  by (rule admit_arrived_split [of s]) (simp add: srtf_work_def o_def)

lemma srtf_ok_admit:
  assumes "srtf_ok ps s"
  shows "srtf_ok ps (admit_arrived s)"
proof -
  have "\<forall>p \<in> set (remaining_processes (admit_arrived s)). arrival_time p \<le> latest ps"
    using assms by (rule_tac admit_arrived_split [of s]) (auto simp: srtf_ok_def)
  then show ?thesis
    using assms by (simp add: srtf_ok_def srtf_pids_def queues_ok_admit)
qed

text \<open>The preemption test.\<close>

lemma SRTF_check_cases:
  obtains (free) "current_process s = None" "SRTF_check s = s"
  | (complete) c where "current_process s = Some c" "remaining_time c = 0"
      "SRTF_check s =
         s\<lparr>completed_processes := completed_processes s @ [finalize c (current_time s)],
           current_process := None\<rparr>"
  | (preempt) c where "current_process s = Some c" "remaining_time c \<noteq> 0"
      "SRTF_check s =
         s\<lparr>ready_queue := ready_queue s @ [c\<lparr>state := READY\<rparr>], current_process := None\<rparr>"
  | (keep) c where "current_process s = Some c" "remaining_time c \<noteq> 0" "SRTF_check s = s"
proof (cases "current_process s")
  case None
  then show ?thesis using free by (simp add: SRTF_check_def)
next
  case (Some c)
  show ?thesis
  proof (cases "remaining_time c = 0")
    case True
    then show ?thesis using Some complete [of c] by (simp add: SRTF_check_def is_complete_def)
  next
    case False
    show ?thesis
    proof (cases "SRTF_check s = s")
      case True
      then show ?thesis using Some False keep by blast
    next
      case ne: False
      then have "SRTF_check s =
         s\<lparr>ready_queue := ready_queue s @ [c\<lparr>state := READY\<rparr>], current_process := None\<rparr>"
        using Some False
        by (auto simp: SRTF_check_def is_complete_def Let_def split: list.splits if_splits)
      then show ?thesis using Some False preempt by blast
    qed
  qed
qed

lemma SRTF_check_fields [simp]:
  "current_time (SRTF_check s) = current_time s"
  "gantt_chart (SRTF_check s) = gantt_chart s"
  "remaining_processes (SRTF_check s) = remaining_processes s"
  by (cases s rule: SRTF_check_cases; simp)+

lemma finalize_fields [simp]:
  "pid (finalize c t) = pid c"
  "completion_time (finalize c t) = t"
  "waiting_time (finalize c t) = t - arrival_time c - burst_time c"
  "response_time (finalize c t) = response_time c"
  "arrival_time (finalize c t) = arrival_time c"
  "burst_time (finalize c t) = burst_time c"
  by (simp_all add: finalize_def)

lemma srtf_ok_check:
  assumes ok: "srtf_ok ps s"
  shows "srtf_ok ps (SRTF_check s)"
    and "srtf_work (SRTF_check s) = srtf_work s"
    and "\<forall>c \<in> set (current_list (SRTF_check s)). 0 < remaining_time c"
proof -
  have "srtf_ok ps (SRTF_check s) \<and> srtf_work (SRTF_check s) = srtf_work s \<and>
    (\<forall>c \<in> set (current_list (SRTF_check s)). 0 < remaining_time c)"
  proof (cases s rule: SRTF_check_cases)
    case free
    then show ?thesis using ok by simp
  next
    case (complete c)
    have r: "running_ok (current_time s) c" using ok complete(1) by (simp add: srtf_ok_def)
    then have "completed_ok (current_time s) (finalize c (current_time s))"
      using complete(2) by (simp add: running_ok_def completed_ok_def)
    then show ?thesis
      using ok complete(1,2) unfolding complete(3)
      by (simp add: srtf_ok_def srtf_pids_def owned_pids_def queues_ok_def srtf_work_def)
  next
    case (preempt c)
    have r: "running_ok (current_time s) c" using ok preempt(1) by (simp add: srtf_ok_def)
    then have "ready_ok (current_time s) (c\<lparr>state := READY\<rparr>)"
      using preempt(2) by (simp add: running_ok_def ready_ok_def)
    then show ?thesis
      using ok preempt(1,2) unfolding preempt(3)
      by (simp add: srtf_ok_def srtf_pids_def owned_pids_def queues_ok_def srtf_work_def)
  next
    case (keep c)
    have r: "running_ok (current_time s) c" using ok keep(1) by (simp add: srtf_ok_def)
    then show ?thesis
      using ok keep by (simp add: running_ok_def)
  qed
  then show "srtf_ok ps (SRTF_check s)" "srtf_work (SRTF_check s) = srtf_work s"
    "\<forall>c \<in> set (current_list (SRTF_check s)). 0 < remaining_time c"
    by simp_all
qed

text \<open>The selection.\<close>

lemma SRTF_select_cases:
  obtains (pick) p rq where "current_process s = None"
      "sort_key SRTF_key (ready_queue s) = p # rq"
      "SRTF_select s =
         s\<lparr>ready_queue := rq,
           current_process :=
             Some (mark_first_dispatch (p\<lparr>state := RUNNING\<rparr>) (current_time s))\<rparr>"
  | (idle) "current_process s = None" "ready_queue s = []" "SRTF_select s = s"
  | (busy) c where "current_process s = Some c" "SRTF_select s = s"
proof (cases "current_process s")
  case None
  show ?thesis
  proof (cases "ready_queue s = []")
    case True
    then show ?thesis using None idle by (simp add: SRTF_select_def)
  next
    case False
    then have "sort_key SRTF_key (ready_queue s) \<noteq> []"
      by (metis length_sort length_0_conv)
    then obtain p rq where r: "sort_key SRTF_key (ready_queue s) = p # rq"
      by (cases "sort_key SRTF_key (ready_queue s)") auto
    then show ?thesis using None False pick [OF None r] by (simp add: SRTF_select_def)
  qed
next
  case (Some c)
  then show ?thesis using busy by (simp add: SRTF_select_def)
qed

lemma SRTF_select_fields [simp]:
  "current_time (SRTF_select s) = current_time s"
  "gantt_chart (SRTF_select s) = gantt_chart s"
  "remaining_processes (SRTF_select s) = remaining_processes s"
  "completed_processes (SRTF_select s) = completed_processes s"
  by (cases s rule: SRTF_select_cases; simp)+

lemma srtf_ok_select:
  assumes ok: "srtf_ok ps s" and pos: "\<forall>c \<in> set (current_list s). 0 < remaining_time c"
  shows "srtf_ok ps (SRTF_select s)"
    and "srtf_work (SRTF_select s) = srtf_work s"
    and "\<forall>c \<in> set (current_list (SRTF_select s)). 0 < remaining_time c \<and> state c = RUNNING"
    and "current_process (SRTF_select s) = None \<longrightarrow> ready_queue (SRTF_select s) = []"
proof -
  have "srtf_ok ps (SRTF_select s) \<and> srtf_work (SRTF_select s) = srtf_work s \<and>
    (\<forall>c \<in> set (current_list (SRTF_select s)). 0 < remaining_time c \<and> state c = RUNNING) \<and>
    (current_process (SRTF_select s) = None \<longrightarrow> ready_queue (SRTF_select s) = [])"
  proof (cases s rule: SRTF_select_cases)
    case (pick p rq)
    let ?c = "mark_first_dispatch (p\<lparr>state := RUNNING\<rparr>) (current_time s)"
    have m: "mset (ready_queue s) = add_mset p (mset rq)"
      and st: "set (ready_queue s) = insert p (set rq)"
      using pick(2) by (rule sort_key_Cons_mset, rule sort_key_Cons_set)
    have p: "ready_ok (current_time s) p" and rq: "\<forall>x \<in> set rq. ready_ok (current_time s) x"
      using ok st by (auto simp: srtf_ok_def queues_ok_def)
    have c: "pid ?c = pid p" "remaining_time ?c = remaining_time p" "state ?c = RUNNING"
      "running_ok (current_time s) ?c"
      using p by (auto simp: mark_first_dispatch_def running_ok_def ready_ok_def)
    have w: "sum_list (map remaining_time (ready_queue s))
        = remaining_time p + sum_list (map remaining_time rq)"
      using m by (metis (no_types, lifting) list.simps(9) mset.simps(2) mset_map sum_list.Cons
          sum_mset_sum_list)
    have "srtf_pids (SRTF_select s) = srtf_pids s"
      unfolding pick(3) by (simp add: srtf_pids_def owned_pids_def pick(1) m c)
    moreover have "srtf_work (SRTF_select s) = srtf_work s"
      unfolding pick(3) by (simp add: srtf_work_def pick(1) w c)
    moreover have "queues_ok (SRTF_select s)"
      using ok rq unfolding pick(3) by (simp add: srtf_ok_def queues_ok_def)
    ultimately show ?thesis
      using ok c p by (simp add: srtf_ok_def) (simp add: pick(3) ready_ok_def)
  next
    case idle
    then show ?thesis using ok by simp
  next
    case (busy c)
    have "running_ok (current_time s) c" using ok busy(1) by (simp add: srtf_ok_def)
    then show ?thesis using ok pos busy by (simp add: running_ok_def)
  qed
  then show "srtf_ok ps (SRTF_select s)" "srtf_work (SRTF_select s) = srtf_work s"
    "\<forall>c \<in> set (current_list (SRTF_select s)). 0 < remaining_time c \<and> state c = RUNNING"
    "current_process (SRTF_select s) = None \<longrightarrow> ready_queue (SRTF_select s) = []"
    by simp_all
qed

lemma member_le_sum_list_int:
  fixes xs :: "int list"
  shows "\<forall>y \<in> set xs. 0 \<le> y \<Longrightarrow> x \<in> set xs \<Longrightarrow> x \<le> sum_list xs"
proof (induction xs)
  case Nil
  then show ?case by simp
next
  case (Cons a xs)
  have "0 \<le> sum_list xs" using Cons.prems(1) by (simp add: sum_list_nonneg)
  then show ?case using Cons by auto
qed

lemma srtf_work_positive:
  assumes ok: "srtf_ok ps s" and nd: "\<not> SRTF_all_done s"
  shows "1 \<le> srtf_work s"
proof -
  let ?all = "remaining_processes s @ ready_queue s @ current_list s"
  have nn: "\<forall>y \<in> set (map remaining_time ?all). 0 \<le> y"
    using ok by (auto simp: srtf_ok_def queues_ok_def pending_ok_def ready_ok_def running_ok_def)
  have "\<exists>p \<in> set ?all. 1 \<le> remaining_time p"
  proof (cases "remaining_processes s")
    case (Cons p rest)
    then have "pending_ok p" using ok by (simp add: srtf_ok_def queues_ok_def)
    then show ?thesis using Cons by (auto simp: pending_ok_def)
  next
    case Nil
    show ?thesis
    proof (cases "ready_queue s")
      case (Cons p rest)
      then have "ready_ok (current_time s) p" using ok by (simp add: srtf_ok_def queues_ok_def)
      then show ?thesis using Cons by (auto simp: ready_ok_def)
    next
      case rn: Nil
      with Nil nd obtain c where c: "current_process s = Some c" "remaining_time c \<noteq> 0"
        by (auto simp: SRTF_all_done_def is_complete_def split: option.splits)
      then have "running_ok (current_time s) c" using ok by (simp add: srtf_ok_def)
      then show ?thesis using c by (auto simp: running_ok_def)
    qed
  qed
  then obtain p where p: "p \<in> set ?all" "1 \<le> remaining_time p" by blast
  then have "remaining_time p \<in> set (map remaining_time ?all)"
    by (metis image_eqI set_map)
  from member_le_sum_list_int [OF nn this] p(2) show ?thesis
    by (simp add: srtf_work_def)
qed

lemma execute_running:
  assumes "state c = RUNNING" "0 < remaining_time c"
  shows "pid (execute c 1) = pid c" "arrival_time (execute c 1) = arrival_time c"
    "burst_time (execute c 1) = burst_time c" "response_time (execute c 1) = response_time c"
    "remaining_time (execute c 1) = remaining_time c - 1"
    "0 < remaining_time c - 1 \<longrightarrow> state (execute c 1) = RUNNING"
  using assms by (simp_all add: execute_def Let_def)

lemma srtf_pid_in_input:
  assumes "srtf_pids s = mset (map pid ps)" "current_process s = Some c"
  shows "\<exists>p' \<in> set ps. proc_label c = proc_label p'"
proof -
  have "pid c \<in># srtf_pids s" using assms(2) by (simp add: srtf_pids_def)
  then have "pid c \<in> set (map pid ps)" using assms(1) by (metis set_mset_mset)
  then show ?thesis by auto
qed

lemma SRTF_unit_step:
  assumes ok: "srtf_ok ps (s\<lparr>current_time := t\<rparr>)" and nd: "\<not> SRTF_all_done s"
  shows "t + 1 \<le> total_burst ps + latest ps"
    and "\<not> SRTF_all_done (SRTF_unit t s) \<Longrightarrow>
           srtf_ok ps ((SRTF_unit t s)\<lparr>current_time := t + 1\<rparr>)"
    and "SRTF_all_done (SRTF_unit t s) \<Longrightarrow> srtf_final ps (SRTF_finish (SRTF_unit t s))"
proof -
  let ?s0 = "s\<lparr>current_time := t\<rparr>"
  let ?a = "admit_arrived ?s0"
  let ?c = "SRTF_check ?a"
  let ?m = "SRTF_select ?c"
  let ?s1 = "SRTF_unit t s"
  have s1: "?s1 = SRTF_execute ?m" by (simp add: SRTF_unit_def)
  have nd0: "\<not> SRTF_all_done ?s0" using nd by (simp add: SRTF_all_done_def)
  have w0: "1 \<le> srtf_work ?s0" using srtf_work_positive [OF ok nd0] .
  have oka: "srtf_ok ps ?a" using ok by (rule srtf_ok_admit)
  note chk = srtf_ok_check [OF oka]
  note sel = srtf_ok_select [OF chk(1) chk(3)]
  have okm: "srtf_ok ps ?m" by (rule sel(1))
  have wm: "srtf_work ?m = srtf_work ?s0" using sel(2) chk(2) by simp
  have tm: "current_time ?m = t" by simp
  have bound: "srtf_work ?m + t \<le> total_burst ps + min t (latest ps)" "0 \<le> t"
    using okm by (simp_all add: srtf_ok_def)
  show le: "t + 1 \<le> total_burst ps + latest ps"
    using bound w0 wm by simp
  have nxt: "\<And>p rest. remaining_processes ?m = p # rest \<Longrightarrow> t < arrival_time p"
    using admit_arrived_next [of ?s0] by simp
  have q: "queues_ok ?m" "\<forall>p \<in> set (remaining_processes ?m). arrival_time p \<le> latest ps"
    "srtf_pids ?m = mset (map pid ps)"
    "gantt_upto t (gantt_chart ?m)" "labels_from ps (gantt_chart ?m)"
    "labels_alternate (gantt_chart ?m)"
    using okm by (simp_all add: srtf_ok_def)
  have res: "(\<not> SRTF_all_done ?s1 \<longrightarrow> srtf_ok ps (?s1\<lparr>current_time := t + 1\<rparr>)) \<and>
      (SRTF_all_done ?s1 \<longrightarrow> srtf_final ps (SRTF_finish ?s1))"
  proof (cases "current_process ?m")
    case None
    then have e: "?s1 = ?m\<lparr>gantt_chart := gantt_extend (gantt_chart ?m) t ''IDLE''\<rparr>"
      by (simp add: s1 SRTF_execute_def)
    have rq: "ready_queue ?m = []" using sel(4) None by simp
    have not_done: "\<not> SRTF_all_done ?s1"
    proof
      assume "SRTF_all_done ?s1"
      then have "remaining_processes ?m = []" by (simp add: e SRTF_all_done_def)
      then have "srtf_work ?m = 0" using rq None by (simp add: srtf_work_def)
      then show False using w0 wm by simp
    qed
    then obtain p rest where r: "remaining_processes ?m = p # rest"
      using rq None by (cases "remaining_processes ?m") (auto simp: e SRTF_all_done_def)
    have "t < latest ps" using nxt [OF r] q(2) r by fastforce
    then have "srtf_work ?m + (t + 1) \<le> total_burst ps + min (t + 1) (latest ps)"
      using bound by simp
    moreover have "queues_ok (?s1\<lparr>current_time := t + 1\<rparr>)"
      using q(1) unfolding queues_ok_def e
      by (auto intro: ready_ok_mono completed_ok_mono)
    ultimately have "srtf_ok ps (?s1\<lparr>current_time := t + 1\<rparr>)"
      using q bound(2) None rq
      by (simp add: srtf_ok_def e srtf_pids_def owned_pids_def srtf_work_def
          gantt_extend_upto gantt_extend_from gantt_extend_alternate)
    then show ?thesis using not_done by simp
  next
    case (Some c)
    then have e: "?s1 = ?m\<lparr>gantt_chart := gantt_extend (gantt_chart ?m) t (proc_label c),
                           current_process := Some (execute c 1)\<rparr>"
      by (simp add: s1 SRTF_execute_def)
    have cr: "state c = RUNNING" "0 < remaining_time c" using sel(3) Some by simp_all
    note ex = execute_running [OF cr]
    have rc: "running_ok t c" using okm Some by (simp add: srtf_ok_def)
    then have rc': "running_ok (t + 1) (execute c 1)"
      using cr ex by (simp add: running_ok_def)
    have lbl: "\<exists>p' \<in> set ps. proc_label c = proc_label p'"
      using srtf_pid_in_input [OF q(3) Some] .
    have g: "gantt_upto (t + 1) (gantt_chart ?s1)" "labels_from ps (gantt_chart ?s1)"
      "labels_alternate (gantt_chart ?s1)" "gantt_chart ?s1 \<noteq> []"
      using q lbl by (simp_all add: e gantt_extend_upto gantt_extend_from gantt_extend_alternate)
    have qs: "queues_ok (?s1\<lparr>current_time := t + 1\<rparr>)"
      using q(1) unfolding queues_ok_def e
      by (auto intro: ready_ok_mono completed_ok_mono)
    have pids: "srtf_pids ?s1 = mset (map pid ps)"
      using q(3) Some by (simp add: e srtf_pids_def owned_pids_def ex)
    have work: "srtf_work ?s1 = srtf_work ?m - 1"
      using Some by (simp add: e srtf_work_def ex)
    show ?thesis
    proof (intro conjI impI)
      assume "\<not> SRTF_all_done ?s1"
      have "srtf_work ?s1 + (t + 1) \<le> total_burst ps + min (t + 1) (latest ps)"
        using bound work by simp
      then show "srtf_ok ps (?s1\<lparr>current_time := t + 1\<rparr>)"
        using qs q(2) g pids rc' bound(2)
        by (simp add: srtf_ok_def srtf_pids_def owned_pids_def srtf_work_def)
          (simp add: e)
    next
      assume d: "SRTF_all_done ?s1"
      let ?f = "finalize (execute c 1) (t + 1)"
      have z: "remaining_time (execute c 1) = 0" "remaining_processes ?s1 = []"
        "ready_queue ?s1 = []"
        using d by (simp_all add: e SRTF_all_done_def is_complete_def)
      have fin: "SRTF_finish ?s1 = ?s1\<lparr>completed_processes := completed_processes ?s1 @ [?f]\<rparr>"
        using z(1) by (simp add: e SRTF_finish_def is_complete_def)
      have cf: "completed_processes (SRTF_finish ?s1) = completed_processes ?s1 @ [?f]"
        "gantt_chart (SRTF_finish ?s1) = gantt_chart ?s1"
        by (simp_all add: fin)
      have cp: "current_process ?s1 = Some (execute c 1)" by (simp add: e)
      have cok: "\<forall>x \<in> set (completed_processes ?s1). completed_ok (t + 1) x"
        using qs by (simp add: queues_ok_def)
      have fok: "0 \<le> waiting_time ?f" "0 \<le> response_time ?f" "completion_time ?f = t + 1"
        "arrival_time ?f + burst_time ?f \<le> completion_time ?f"
        using rc' z(1) by (simp_all add: running_ok_def)
      have "Max (completion_time ` set (completed_processes (SRTF_finish ?s1))) = t + 1"
      proof (rule Max_eqI)
        show "finite (completion_time ` set (completed_processes (SRTF_finish ?s1)))" by simp
        show "\<And>y. y \<in> completion_time ` set (completed_processes (SRTF_finish ?s1))
            \<Longrightarrow> y \<le> t + 1"
          using cok by (auto simp: cf completed_ok_def)
        show "t + 1 \<in> completion_time ` set (completed_processes (SRTF_finish ?s1))"
          by (simp add: cf)
      qed
      moreover have "gantt_tiles 0 (t + 1) (gantt_chart (SRTF_finish ?s1))"
        using g by (simp add: cf gantt_upto_def)
      moreover have "mset (map pid (completed_processes (SRTF_finish ?s1))) = mset (map pid ps)"
        using pids z cp by (simp add: cf srtf_pids_def owned_pids_def ex)
      moreover have "\<forall>x \<in> set (completed_processes (SRTF_finish ?s1)).
          0 \<le> waiting_time x \<and> 0 \<le> response_time x \<and>
          arrival_time x + burst_time x \<le> completion_time x \<and>
          completion_time x \<le> total_burst ps + latest ps"
        using cok fok le by (auto simp: cf completed_ok_def)
      ultimately show "srtf_final ps (SRTF_finish ?s1)"
        using g by (simp add: srtf_final_def run_ok_def cf)
    qed
  qed
  from res show "\<not> SRTF_all_done ?s1 \<Longrightarrow> srtf_ok ps (?s1\<lparr>current_time := t + 1\<rparr>)"
    and "SRTF_all_done ?s1 \<Longrightarrow> srtf_final ps (SRTF_finish ?s1)"
    by simp_all
qed

lemma SRTF_loop_final:
  assumes "srtf_ok ps (s\<lparr>current_time := int k\<rparr>)" "\<not> SRTF_all_done s"
    and "int n = total_burst ps + latest ps + 1"
  shows "srtf_final ps (SRTF_loop (map int [k..<n]) s)"
  using assms
proof (induction "n - k" arbitrary: k s)
  case 0
  from SRTF_unit_step(1) [OF "0.prems"(1,2)] "0.prems"(3) "0.hyps" show ?case by simp
next
  case (Suc d)
  note step = SRTF_unit_step [OF Suc.prems(1,2)]
  have lt: "k < n" using Suc.hyps(2) by simp
  then have l: "[k..<n] = k # [Suc k..<n]" by (simp add: upt_conv_Cons)
  show ?case
  proof (cases "SRTF_all_done (SRTF_unit (int k) s)")
    case True
    then show ?thesis using step(3) by (simp add: l Let_def)
  next
    case False
    have "srtf_ok ps ((SRTF_unit (int k) s)\<lparr>current_time := int (Suc k)\<rparr>)"
      using step(2) [OF False] by (simp add: add.commute)
    from Suc.hyps(1) [OF _ this False Suc.prems(3)] Suc.hyps(2)
    have "srtf_final ps (SRTF_loop (map int [Suc k..<n]) (SRTF_unit (int k) s))" by simp
    then show ?thesis using False by (simp add: l Let_def)
  qed
qed

lemma sum_list_sort_key:
  fixes f :: "'a \<Rightarrow> int"
  shows "sum_list (map f (sort_key k xs)) = sum_list (map f xs)"
  by (metis mset_map mset_sort sum_mset_sum_list)

lemma valid_input_latest:
  assumes "valid_input ps"
  shows "0 \<le> latest ps" "\<forall>p \<in> set ps. arrival_time p \<le> latest ps"
proof -
  show b: "\<forall>p \<in> set ps. arrival_time p \<le> latest ps"
    by (simp add: latest_def)
  obtain p where "p \<in> set ps" using assms by (cases ps) (auto simp: valid_input_def)
  then have "0 \<le> arrival_time p" "arrival_time p \<le> latest ps"
    using assms b by (auto simp: valid_input_def)
  then show "0 \<le> latest ps" by simp
qed

lemma srtf_ok_init:
  assumes v: "valid_input ps"
  shows "srtf_ok ps ((SRTF_init ps)\<lparr>current_time := 0\<rparr>)" "\<not> SRTF_all_done (SRTF_init ps)"
proof -
  have ne: "ps \<noteq> []" using v by (simp add: valid_input_def)
  then have "sort_key arrival_key ps \<noteq> []" by (metis length_sort length_0_conv)
  then show "\<not> SRTF_all_done (SRTF_init ps)"
    by (simp add: SRTF_all_done_def SRTF_init_def)
  have "map remaining_time ps = map burst_time ps"
    using valid_input_pending [OF v] by (auto simp: pending_ok_def)
  then have "sum_list (map remaining_time ps) = total_burst ps"
    unfolding total_burst_def by (rule arg_cong)
  then have w: "srtf_work ((SRTF_init ps)\<lparr>current_time := 0\<rparr>) = total_burst ps"
    by (simp add: srtf_work_def SRTF_init_def current_list_def sum_list_sort_key)
  show "srtf_ok ps ((SRTF_init ps)\<lparr>current_time := 0\<rparr>)"
    using valid_input_pending [OF v] valid_input_latest [OF v]
    unfolding srtf_ok_def w
    by (simp add: SRTF_init_def srtf_pids_def owned_pids_def queues_ok_def
        current_list_def gantt_upto_def labels_from_def labels_alternate_def)
qed

lemma total_burst_nonneg: "valid_input ps \<Longrightarrow> 0 \<le> total_burst ps"
  unfolding total_burst_def valid_input_def
  by (intro sum_list_nonneg) auto

lemma py_max_latest: "ps \<noteq> [] \<Longrightarrow> py_max (map arrival_time ps) = Inr (latest ps)"
proof (cases ps)
  case Nil
  assume "ps \<noteq> []"
  with Nil show ?thesis by simp
next
  case (Cons p rest)
  have "Max (set (arrival_time p # map arrival_time rest))
      = fold max (map arrival_time rest) (arrival_time p)"
    by (rule Max.set_eq_fold)
  then show ?thesis using Cons by (simp add: py_max_def latest_def)
qed

lemma SRTF_run_ok:
  assumes v: "valid_input ps"
  shows "\<exists>s. SRTF_run ps = Inr s \<and> srtf_final ps s"
proof -
  have ne: "ps \<noteq> []" using v by (simp add: valid_input_def)
  let ?n = "nat (total_burst ps + latest ps + 1)"
  have n: "int ?n = total_burst ps + latest ps + 1"
    using total_burst_nonneg [OF v] valid_input_latest(1) [OF v] by simp
  have run: "SRTF_run ps = Inr (SRTF_loop (map int [0..<?n]) (SRTF_init ps))"
    by (simp add: SRTF_run_def py_max_latest [OF ne] Let_def py_range_def total_burst_def)
  have "srtf_final ps (SRTF_loop (map int [0..<?n]) (SRTF_init ps))"
    using srtf_ok_init [OF v] n by (intro SRTF_loop_final) simp_all
  then show ?thesis using run by simp
qed

section \<open>What every policy returns\<close>



lemma results_of_run:
  fixes s :: "'a scheduler_scheme"
  assumes "run_ok ps s" "alt \<longrightarrow> labels_alternate (gantt_chart s)"
    "bnd \<longrightarrow> (\<forall>c \<in> set (completed_processes s). completion_time c \<le> total_burst ps + latest ps)"
  shows "\<exists>cs metrics gantt.
     get_results fdiv fround s = Inr (map get_statistics cs, metrics, gantt) \<and>
     mset (map pid cs) = mset (map pid ps) \<and>
     (\<forall>c \<in> set cs. 0 \<le> waiting_time c \<and> 0 \<le> response_time c \<and>
        arrival_time c + burst_time c \<le> completion_time c) \<and>
     gantt_tiles 0 (Max (completion_time ` set cs)) gantt \<and> labels_from ps gantt \<and>
     (alt \<longrightarrow> labels_alternate gantt) \<and>
     (bnd \<longrightarrow> (\<forall>c \<in> set cs. completion_time c \<le> total_burst ps + latest ps))"
proof -
  obtain m where "get_results fdiv fround s =
      Inr (map get_statistics (completed_processes s), m, gantt_chart s)"
    using get_results_Inr by blast
  then show ?thesis using assms by (auto simp: run_ok_def)
qed

lemma schedule_ok:
  assumes v: "valid_input ps" and p: "valid_policy pol"
  shows "\<exists>cs metrics gantt.
     schedule fdiv fround pol ps = Some (Inr (map get_statistics cs, metrics, gantt)) \<and>
     mset (map pid cs) = mset (map pid ps) \<and>
     (\<forall>c \<in> set cs. 0 \<le> waiting_time c \<and> 0 \<le> response_time c \<and>
        arrival_time c + burst_time c \<le> completion_time c) \<and>
     gantt_tiles 0 (Max (completion_time ` set cs)) gantt \<and> labels_from ps gantt \<and>
     ((\<forall>q. pol \<noteq> RoundRobin q) \<longrightarrow> labels_alternate gantt) \<and>
     (pol = SRTF \<longrightarrow> (\<forall>c \<in> set cs. completion_time c \<le> total_burst ps + latest ps))"
proof -
  note r = results_of_run [where fdiv = fdiv and fround = fround and ps = ps]
  show ?thesis
  proof (cases pol)
    case FCFS
    from r [of "FCFS_run ps" True False] FCFS_run_ok [OF v] FCFS_run_alternates [OF v]
    show ?thesis by (simp add: FCFS FCFS_schedule_def)
  next
    case SJF
    obtain s where s: "nonpreemptive_run SJF_key ps = Some s" "run_ok ps s"
      using nonpreemptive_run_ok [OF v] by blast
    from r [of s True False] s nonpreemptive_run_alternates [OF v s(1)]
    show ?thesis by (simp add: SJF SJF_schedule_def)
  next
    case SRTF
    obtain s where s: "SRTF_run ps = Inr s" "srtf_final ps s"
      using SRTF_run_ok [OF v] by blast
    from r [of s True True] s
    show ?thesis by (simp add: SRTF SRTF_schedule_def srtf_final_def)
  next
    case (RoundRobin q)
    then have "0 < q" using p by simp
    then obtain s where s: "RR_run q ps = Some s" "run_ok ps s"
      using RR_run_ok [OF v] by blast
    from r [of s False False] s
    show ?thesis by (simp add: RoundRobin RoundRobin_schedule_def)
  next
    case Priority
    obtain s where s: "nonpreemptive_run Priority_key ps = Some s" "run_ok ps s"
      using nonpreemptive_run_ok [OF v] by blast
    from r [of s True False] s nonpreemptive_run_alternates [OF v s(1)]
    show ?thesis by (simp add: Priority Priority_schedule_def)
  qed
qed

lemma valid_examples:
  "valid_input fcfs_example" "valid_input srtf_example" "valid_input rr_example"
  by code_simp+

lemma stats_of_record [simp]:
  "get_statistics c ''pid'' = Some (pid c)"
  "get_statistics c ''arrival_time'' = Some (arrival_time c)"
  "get_statistics c ''burst_time'' = Some (burst_time c)"
  "get_statistics c ''completion_time'' = Some (completion_time c)"
  "get_statistics c ''waiting_time'' = Some (waiting_time c)"
  "get_statistics c ''response_time'' = Some (response_time c)"
  by (simp_all add: get_statistics_def)






section \<open>The SRTF scenario\<close>

lemma srtf_example_run:
  "map_sum id (\<lambda>s. (running_at (gantt_chart s) 3, running_at (gantt_chart s) 4,
       stat_of (map get_statistics (completed_processes s)) 1 ''completion_time''))
     (SRTF_run srtf_example) = Inr ([''P3''], [''P4''], [Some 15])"
  by code_simp

lemma srtf_example_schedule:
  "\<exists>stats metrics gantt.
     SRTF_schedule fdiv fround srtf_example = Inr (stats, metrics, gantt) \<and>
     running_at gantt 3 = [''P3''] \<and> running_at gantt 4 = [''P4''] \<and>
     stat_of stats 1 ''completion_time'' = [Some 15]"
proof -
  obtain s where s: "SRTF_run srtf_example = Inr s"
    and v: "running_at (gantt_chart s) 3 = [''P3'']" "running_at (gantt_chart s) 4 = [''P4'']"
      "stat_of (map get_statistics (completed_processes s)) 1 ''completion_time'' = [Some 15]"
    using srtf_example_run by (cases "SRTF_run srtf_example") auto
  obtain m where "get_results fdiv fround s =
      Inr (map get_statistics (completed_processes s), m, gantt_chart s)"
    using get_results_Inr by blast
  then show ?thesis
    using s v by (simp add: SRTF_schedule_def)
qed

text \<open>
  C1, as the code behaves: SRTF on P1(arrival 0, burst 8), P2(1, 4), P3(2, 2), P4(3, 1).
  At time 3 the running P3 has one unit left and the arriving P4 needs one unit; the
  preemption test is strict, so P3 keeps the CPU during time unit 3 and P4 runs during
  time unit 4. P1 completes at 15, the sum of the four bursts.
\<close>

theorem srtf_scenario:
  "\<exists>stats metrics gantt.
     SRTF_schedule fdiv fround
       [Process_init 1 0 8 0, Process_init 2 1 4 0, Process_init 3 2 2 0, Process_init 4 3 1 0]
       = Inr (stats, metrics, gantt) \<and>
     running_at gantt 3 = [''P3''] \<and> running_at gantt 4 = [''P4''] \<and>
     stat_of stats 1 ''completion_time'' = [Some 15]"
  using srtf_example_schedule [of fdiv fround] by (simp add: srtf_example_def)

text \<open>
  C1, as the specification states it, fails: the label at time unit 3 is not P4 and the
  completion time of P1 is not 16.
\<close>

theorem srtf_scenario_counterexample:
  "running_at (result_gantt (schedule example_div example_round SRTF
       [Process_init 1 0 8 0, Process_init 2 1 4 0, Process_init 3 2 2 0, Process_init 4 3 1 0])) 3
     \<noteq> [''P4''] \<and>
   stat_of (result_stats (schedule example_div example_round SRTF
       [Process_init 1 0 8 0, Process_init 2 1 4 0, Process_init 3 2 2 0, Process_init 4 3 1 0])) 1
       ''completion_time'' \<noteq> [Some 16]"
proof -
  obtain stats metrics gantt where
    "SRTF_schedule example_div example_round srtf_example = Inr (stats, metrics, gantt)"
    "running_at gantt 3 = [''P3'']" "stat_of stats 1 ''completion_time'' = [Some 15]"
    using srtf_example_schedule [of example_div example_round] by blast
  then show ?thesis
    by (simp add: result_gantt_def result_stats_def srtf_example_def)
qed

section \<open>The strict preemption test of SRTF\<close>

lemma min_by_in: "min_by key m xs \<in> set (m # xs)"
  by (induction xs arbitrary: m) auto

text \<open>
  C5: in a time unit of SRTF that starts with a running process \<open>c\<close> that is not
  complete, if no member of the ready queue (after the arrivals of this time unit have
  joined it) has strictly less remaining time than \<open>c\<close>, in particular when the minimum
  equals the remaining time of \<open>c\<close>, then \<open>c\<close> is not returned to the ready queue: it is
  still the running process after the preemption test and the selection, the ready queue
  is untouched, and \<open>c\<close> is the process that executes during this time unit and that the
  Gantt chart records.
\<close>

theorem srtf_no_preemption_on_tie:
  "current_process s = Some c \<and> \<not> is_complete c \<and>
   (\<forall>q \<in> set (ready_queue (admit_arrived (s\<lparr>current_time := time\<rparr>))).
       remaining_time c \<le> remaining_time q)
   \<longrightarrow>
   current_process (SRTF_select (SRTF_check (admit_arrived (s\<lparr>current_time := time\<rparr>))))
     = Some c \<and>
   ready_queue (SRTF_select (SRTF_check (admit_arrived (s\<lparr>current_time := time\<rparr>))))
     = ready_queue (admit_arrived (s\<lparr>current_time := time\<rparr>)) \<and>
   current_process (SRTF_unit time s) = Some (execute c 1) \<and>
   gantt_chart (SRTF_unit time s) = gantt_extend (gantt_chart s) time (proc_label c)"
proof (intro impI, elim conjE)
  let ?a = "admit_arrived (s\<lparr>current_time := time\<rparr>)"
  assume c: "current_process s = Some c" and nc: "\<not> is_complete c"
    and le: "\<forall>q \<in> set (ready_queue ?a). remaining_time c \<le> remaining_time q"
  have a: "current_process ?a = Some c" "gantt_chart ?a = gantt_chart s" "current_time ?a = time"
    using c by (simp_all add: admit_arrived_def split: prod.splits)
  have chk: "SRTF_check ?a = ?a"
  proof (cases "ready_queue ?a")
    case Nil
    then show ?thesis using a nc by (simp add: SRTF_check_def)
  next
    case (Cons q qs)
    have "min_by SRTF_key q qs \<in> set (ready_queue ?a)"
      using min_by_in [of SRTF_key q qs] Cons by simp
    then have "\<not> remaining_time (min_by SRTF_key q qs) < remaining_time c"
      using le by fastforce
    then show ?thesis using a nc Cons by (simp add: SRTF_check_def Let_def)
  qed
  have sel: "SRTF_select ?a = ?a"
    using a by (simp add: SRTF_select_def)
  show "current_process (SRTF_select (SRTF_check ?a)) = Some c \<and>
   ready_queue (SRTF_select (SRTF_check ?a)) = ready_queue ?a \<and>
   current_process (SRTF_unit time s) = Some (execute c 1) \<and>
   gantt_chart (SRTF_unit time s) = gantt_extend (gantt_chart s) time (proc_label c)"
    using a by (simp add: chk sel SRTF_unit_def SRTF_execute_def)
qed

lemma srtf_tie_state_facts:
  "current_process srtf_tie_state = Some srtf_tie_running"
  "\<not> is_complete srtf_tie_running"
  "map remaining_time (ready_queue (admit_arrived (srtf_tie_state\<lparr>current_time := 3\<rparr>)))
     = [3, 7, 1]"
  "remaining_time srtf_tie_running = 1"
  "proc_label srtf_tie_running = ''P3''"
  by code_simp+

theorem srtf_no_preemption_on_tie_witness:
  "current_process srtf_tie_state = Some srtf_tie_running \<and> \<not> is_complete srtf_tie_running \<and>
   map remaining_time (ready_queue (admit_arrived (srtf_tie_state\<lparr>current_time := 3\<rparr>)))
     = [3, 7, 1] \<and>
   remaining_time srtf_tie_running = 1 \<and>
   current_process (SRTF_unit 3 srtf_tie_state) = Some (execute srtf_tie_running 1) \<and>
   gantt_chart (SRTF_unit 3 srtf_tie_state) = gantt_extend (gantt_chart srtf_tie_state) 3 ''P3''"
proof -
  have "\<forall>q \<in> set (ready_queue (admit_arrived (srtf_tie_state\<lparr>current_time := 3\<rparr>))).
       remaining_time srtf_tie_running \<le> remaining_time q"
  proof
    fix q
    assume "q \<in> set (ready_queue (admit_arrived (srtf_tie_state\<lparr>current_time := 3\<rparr>)))"
    then have "remaining_time q \<in> set (map remaining_time
        (ready_queue (admit_arrived (srtf_tie_state\<lparr>current_time := 3\<rparr>))))"
      by simp
    then show "remaining_time srtf_tie_running \<le> remaining_time q"
      unfolding srtf_tie_state_facts by auto
  qed
  then show ?thesis
    using srtf_no_preemption_on_tie [of srtf_tie_state srtf_tie_running 3] srtf_tie_state_facts
    by simp
qed

section \<open>The requeue order of Round-Robin\<close>







section \<open>Metrics\<close>






section \<open>Properties of all policies\<close>

text \<open>
  C7: for every input that meets the contract, each of the five policies returns, and
  the pids of the returned statistics are the pids of the input, each exactly once.
  For SRTF every completion time is at most the total burst time plus the latest arrival,
  so the loop over \<open>range(max_time + 1)\<close> ends with its \<open>break\<close>, all processes finalized.
\<close>

theorem every_policy_terminates:
  "valid_input ps \<and> valid_policy pol \<longrightarrow>
   (\<exists>stats metrics gantt.
      schedule fdiv fround pol ps = Some (Inr (stats, metrics, gantt)) \<and>
      mset (map (\<lambda>st. st ''pid'') stats) = mset (map (\<lambda>p. Some (pid p)) ps) \<and>
      (pol = SRTF \<longrightarrow>
         (\<forall>st \<in> set stats. \<exists>c. st ''completion_time'' = Some c \<and>
            c \<le> sum_list (map burst_time ps) + Max (set (map arrival_time ps)))))"
proof (intro impI, elim conjE)
  assume v: "valid_input ps" and p: "valid_policy pol"
  from schedule_ok [OF v p, of fdiv fround] obtain cs metrics gantt where
    s: "schedule fdiv fround pol ps = Some (Inr (map get_statistics cs, metrics, gantt))"
    and m: "mset (map pid cs) = mset (map pid ps)"
    and b: "pol = SRTF \<longrightarrow> (\<forall>c \<in> set cs. completion_time c \<le> total_burst ps + latest ps)"
    by blast
  have "mset (map (\<lambda>st. st ''pid'') (map get_statistics cs)) = image_mset Some (mset (map pid cs))"
    by (simp add: o_def multiset.map_comp)
  also have "\<dots> = mset (map (\<lambda>p. Some (pid p)) ps)"
    unfolding m by (simp add: o_def multiset.map_comp)
  finally have "mset (map (\<lambda>st. st ''pid'') (map get_statistics cs))
      = mset (map (\<lambda>p. Some (pid p)) ps)" .
  moreover have "pol = SRTF \<longrightarrow>
         (\<forall>st \<in> set (map get_statistics cs). \<exists>c. st ''completion_time'' = Some c \<and>
            c \<le> sum_list (map burst_time ps) + Max (set (map arrival_time ps)))"
    using b by (auto simp: total_burst_def latest_def)
  ultimately show "\<exists>stats metrics gantt.
      schedule fdiv fround pol ps = Some (Inr (stats, metrics, gantt)) \<and>
      mset (map (\<lambda>st. st ''pid'') stats) = mset (map (\<lambda>p. Some (pid p)) ps) \<and>
      (pol = SRTF \<longrightarrow>
         (\<forall>st \<in> set stats. \<exists>c. st ''completion_time'' = Some c \<and>
            c \<le> sum_list (map burst_time ps) + Max (set (map arrival_time ps))))"
    using s by blast
qed

theorem every_policy_terminates_witness:
  "valid_input srtf_example \<and> valid_policy SRTF \<and>
   (\<exists>stats metrics gantt.
      schedule example_div example_round SRTF srtf_example = Some (Inr (stats, metrics, gantt)) \<and>
      mset (map (\<lambda>st. st ''pid'') stats) = {#Some 1, Some 2, Some 3, Some 4#} \<and>
      (\<forall>st \<in> set stats. \<exists>c. st ''completion_time'' = Some c \<and> c \<le> 18))"
proof -
  have "mset (map (\<lambda>p. Some (pid p)) srtf_example) = {#Some 1, Some 2, Some 3, Some 4#}"
    "sum_list (map burst_time srtf_example) + Max (set (map arrival_time srtf_example)) = 18"
    by (simp_all add: srtf_example_def Process_init_def)
  then show ?thesis
    using every_policy_terminates [of srtf_example SRTF example_div example_round]
      valid_examples(2)
    by simp
qed

text \<open>
  C9: for every input that meets the contract and every policy, every entry of the
  returned statistics has a waiting time and a response time that are not negative, and
  a completion time that is at least the arrival time plus the burst time.
\<close>

theorem waiting_and_response_nonnegative:
  "valid_input ps \<and> valid_policy pol \<longrightarrow>
   (\<exists>stats metrics gantt.
      schedule fdiv fround pol ps = Some (Inr (stats, metrics, gantt)) \<and>
      (\<forall>st \<in> set stats. \<exists>w r a b c.
         st ''waiting_time'' = Some w \<and> st ''response_time'' = Some r \<and>
         st ''arrival_time'' = Some a \<and> st ''burst_time'' = Some b \<and>
         st ''completion_time'' = Some c \<and> 0 \<le> w \<and> 0 \<le> r \<and> a + b \<le> c))"
proof (intro impI, elim conjE)
  assume v: "valid_input ps" and p: "valid_policy pol"
  from schedule_ok [OF v p, of fdiv fround] obtain cs metrics gantt where
    s: "schedule fdiv fround pol ps = Some (Inr (map get_statistics cs, metrics, gantt))"
    and w: "\<forall>c \<in> set cs. 0 \<le> waiting_time c \<and> 0 \<le> response_time c \<and>
        arrival_time c + burst_time c \<le> completion_time c"
    by blast
  from w have "\<forall>st \<in> set (map get_statistics cs). \<exists>w r a b c.
         st ''waiting_time'' = Some w \<and> st ''response_time'' = Some r \<and>
         st ''arrival_time'' = Some a \<and> st ''burst_time'' = Some b \<and>
         st ''completion_time'' = Some c \<and> 0 \<le> w \<and> 0 \<le> r \<and> a + b \<le> c"
    by auto
  with s show "\<exists>stats metrics gantt.
      schedule fdiv fround pol ps = Some (Inr (stats, metrics, gantt)) \<and>
      (\<forall>st \<in> set stats. \<exists>w r a b c.
         st ''waiting_time'' = Some w \<and> st ''response_time'' = Some r \<and>
         st ''arrival_time'' = Some a \<and> st ''burst_time'' = Some b \<and>
         st ''completion_time'' = Some c \<and> 0 \<le> w \<and> 0 \<le> r \<and> a + b \<le> c)"
    by blast
qed

theorem waiting_and_response_nonnegative_witness:
  "valid_input rr_example \<and> valid_policy (RoundRobin 2) \<and>
   (\<exists>stats metrics gantt.
      schedule example_div example_round (RoundRobin 2) rr_example
        = Some (Inr (stats, metrics, gantt)) \<and>
      (\<forall>st \<in> set stats. \<exists>w r a b c.
         st ''waiting_time'' = Some w \<and> st ''response_time'' = Some r \<and>
         st ''arrival_time'' = Some a \<and> st ''burst_time'' = Some b \<and>
         st ''completion_time'' = Some c \<and> 0 \<le> w \<and> 0 \<le> r \<and> a + b \<le> c))"
  using waiting_and_response_nonnegative [of rr_example "RoundRobin 2" example_div example_round]
    valid_examples(3)
  by simp







end
